theory Spec2Isabelle
  imports Complex_Main "HOL-Library.Word" "HOL-Library.Log_Nat"
begin

section \<open>Data model\<close>

text \<open>
  The repository holds two variants of the player: \<^verbatim>\<open>morseplayer.c\<close>, which writes
  signed 8- or 16-bit samples to \<^verbatim>\<open>/dev/audio\<close> from a poll loop, and a PortAudio variant,
  which hands 32-bit float samples to a callback.  The queue, the Morse table and the
  encoder are the same text in both; the buffers, the consumer and the main loop differ.
  Definitions shared by both carry the source's name; where the variants differ the
  PortAudio one has the suffix \<open>_pa\<close>.

  \<^verbatim>\<open>u_int\<close> and \<^verbatim>\<open>int\<close> are 32-bit words (arithmetic wraps; \<open>sint\<close> reads an \<^verbatim>\<open>int\<close>).
  A pointer to one of the five global sounds is a \<open>snd_ref\<close>; a pointer into a sound's
  buffer is an offset from the start of that buffer.
\<close>

type_synonym u_int = "32 word"
type_synonym c_int = "32 word"

datatype snd_ref = Dit | Dah | InChar | InWord | QuietBlock

record 'a a_sound =
  len :: u_int
  buf :: "'a list"

record play_list =
  pl_snd :: snd_ref
  pl_ptr :: nat
  pl_res :: u_int

record play_head =
  l :: "play_list list"
  nent :: c_int
  nsamps :: c_int

record s_params =
  sp_rate :: u_int
  sp_ditlen :: u_int
  sp_dahlen :: u_int
  sp_inCharlen :: u_int
  sp_sampthresh :: u_int
  sp_blocksize :: u_int
  sp_channels :: u_int
  sp_precision :: u_int
  sp_seenspace :: c_int

text \<open>
  The globals of the program, the \<^verbatim>\<open>s_params\<close> block that \<^verbatim>\<open>main\<close> passes around by
  pointer, and the two effects the claims speak of: what has been written to the audio
  sink (\<open>audio_out\<close>, one list element per \<^verbatim>\<open>write\<close> of a queued entry or of silence) and
  how many times the drain request was issued.
\<close>

datatype chunk = Queued snd_ref nat nat | Quiet nat

record 'a world =
  dit :: "'a a_sound"
  dah :: "'a a_sound"
  inChar :: "'a a_sound"
  inWord :: "'a a_sound"
  quietBlock :: "'a a_sound"
  playhead :: play_head
  pl_freelist :: play_head
  pars :: s_params
  audio_out :: "chunk list"
  drained :: nat

datatype fatal =
    Err_read | Err_write | Err_poll | Err_audio_drain
  | Errx_mtable char
  | Bad_read nat
  | Bad_pointer snd_ref nat

fun sound :: "'a world \<Rightarrow> snd_ref \<Rightarrow> 'a a_sound" where
  "sound w Dit = dit w"
| "sound w Dah = dah w"
| "sound w InChar = inChar w"
| "sound w InWord = inWord w"
| "sound w QuietBlock = quietBlock w"

section \<open>Playback queue\<close>

text \<open>
  \<^verbatim>\<open>x_malloc\<close> ends the process when \<^verbatim>\<open>malloc\<close> fails, so it never returns \<^verbatim>\<open>NULL\<close> and
  the \<^verbatim>\<open>NULL\<close> tests after it are dead; the model describes the runs in which memory is
  available.  A freshly allocated entry is uninitialised in C; \<open>raw_entry\<close> stands for it,
  and \<open>enqueue_sound\<close> overwrites each of its fields before it is linked.
\<close>

definition raw_entry :: play_list where
  "raw_entry = \<lparr>pl_snd = Dit, pl_ptr = 0, pl_res = 0\<rparr>"

definition playlist_init :: "'a world \<Rightarrow> 'a world" where
  "playlist_init w =
     w\<lparr>playhead := \<lparr>l = [], nent = 0, nsamps = 0\<rparr>,
       pl_freelist := (pl_freelist w)\<lparr>l := []\<rparr>\<rparr>"

definition playlist_enqueue :: "play_list \<Rightarrow> 'a world \<Rightarrow> 'a world" where
  "playlist_enqueue e w =
     w\<lparr>playhead :=
         \<lparr>l = l (playhead w) @ [e],
          nent = nent (playhead w) + 1,
          nsamps = nsamps (playhead w) + len (sound w (pl_snd e))\<rparr>\<rparr>"

definition pl_alloc :: "'a world \<Rightarrow> play_list \<times> 'a world" where
  "pl_alloc w =
     (let fl = (if l (pl_freelist w) = [] then [raw_entry] else l (pl_freelist w))
      in (hd fl, w\<lparr>pl_freelist := (pl_freelist w)\<lparr>l := tl fl\<rparr>\<rparr>))"

definition pl_free :: "play_list \<Rightarrow> 'a world \<Rightarrow> 'a world" where
  "pl_free e w = w\<lparr>pl_freelist := (pl_freelist w)\<lparr>l := l (pl_freelist w) @ [e]\<rparr>\<rparr>"

definition enqueue_sound :: "snd_ref \<Rightarrow> u_int \<Rightarrow> 'a world \<Rightarrow> 'a world" where
  "enqueue_sound s n w =
     (case pl_alloc w of
        (e, w1) \<Rightarrow> playlist_enqueue (e\<lparr>pl_snd := s, pl_ptr := 0, pl_res := n\<rparr>) w1)"

section \<open>Morse encoder\<close>

text \<open>
  The table without its terminating \<^verbatim>\<open>{ '\0', NULL }\<close> entry: the scan of \<open>convert_char\<close>
  stops at that entry, which is the end of this list.
\<close>

definition morse_chars :: "(char \<times> string) list" where
  "morse_chars =
    [(CHR ''a'', ''.-''), (CHR ''b'', ''-...''), (CHR ''c'', ''-.-.''),
     (CHR ''d'', ''-..''), (CHR ''e'', ''.''), (CHR ''f'', ''..-.''),
     (CHR ''g'', ''--.''), (CHR ''h'', ''....''), (CHR ''i'', ''..''),
     (CHR ''j'', ''.---''), (CHR ''k'', ''-.-''), (CHR ''l'', ''.-..''),
     (CHR ''m'', ''--''), (CHR ''n'', ''-.''), (CHR ''o'', ''---''),
     (CHR ''p'', ''.--.''), (CHR ''q'', ''--.-''), (CHR ''r'', ''.-.''),
     (CHR ''s'', ''...''), (CHR ''t'', ''-''), (CHR ''u'', ''..-''),
     (CHR ''v'', ''...-''), (CHR ''w'', ''.--''), (CHR ''x'', ''-..-''),
     (CHR ''y'', ''-.--''), (CHR ''z'', ''--..''),
     (CHR ''0'', ''-----''), (CHR ''1'', ''.----''), (CHR ''2'', ''..---''),
     (CHR ''3'', ''...--''), (CHR ''4'', ''....-''), (CHR ''5'', ''.....''),
     (CHR ''6'', ''-....''), (CHR ''7'', ''--...''), (CHR ''8'', ''---..''),
     (CHR ''9'', ''----.''),
     (CHR ''/'', ''-..-.''), (CHR ''?'', ''..--..''), (CHR '','', ''--..--''),
     (CHR ''.'', ''.-.-.-''), (CHR ''*'', ''...-.-''), (CHR ''+'', ''.-.-.''),
     (CHR ''='', ''-...-''), (CHR ''|'', ''.-...'')]"

text \<open>\<^verbatim>\<open>isupper\<close>, \<^verbatim>\<open>tolower\<close> and \<^verbatim>\<open>isspace\<close> of the C locale (the program never sets another).\<close>

definition isupper :: "char \<Rightarrow> bool" where
  "isupper c = (65 \<le> (of_char c :: nat) \<and> (of_char c :: nat) \<le> 90)"

definition tolower :: "char \<Rightarrow> char" where
  "tolower c = (if isupper c then char_of ((of_char c :: nat) + 32) else c)"

definition isspace :: "char \<Rightarrow> bool" where
  "isspace c = ((of_char c :: nat) = 32 \<or> (9 \<le> (of_char c :: nat) \<and> (of_char c :: nat) \<le> 13))"

fun play_string :: "string \<Rightarrow> 'a world \<Rightarrow> fatal + 'a world" where
  "play_string [] w = Inr (enqueue_sound InChar (len (inChar w)) w)"
| "play_string (p # ps) w =
     (if p = CHR ''.'' then play_string ps (enqueue_sound Dit (len (dit w)) w)
      else if p = CHR ''-'' then play_string ps (enqueue_sound Dah (len (dah w)) w)
      else Inl (Errx_mtable p))"

fun convert_scan :: "(char \<times> string) list \<Rightarrow> char \<Rightarrow> 'a world \<Rightarrow> fatal + 'a world" where
  "convert_scan [] c w = Inr w"
| "convert_scan ((k, m) # mc) c w =
     (if k = c then play_string m w else convert_scan mc c w)"

definition lowered :: "char \<Rightarrow> char" where
  "lowered c = (if (of_char c :: nat) < 128 \<and> isupper c then tolower c else c)"

definition convert_char :: "char \<Rightarrow> 'a world \<Rightarrow> fatal + 'a world" where
  "convert_char c w = convert_scan morse_chars (lowered c) w"

definition set_seenspace :: "c_int \<Rightarrow> 'a world \<Rightarrow> 'a world" where
  "set_seenspace v w = w\<lparr>pars := (pars w)\<lparr>sp_seenspace := v\<rparr>\<rparr>"

text \<open>One turn of the \<^verbatim>\<open>for\<close> loop of \<open>fetch_chars\<close>, on the byte \<open>c\<close>.\<close>

definition fetch_byte :: "char \<Rightarrow> 'a world \<Rightarrow> fatal + 'a world" where
  "fetch_byte c w =
     (if 128 \<le> (of_char c :: nat) \<or> \<not> isspace c then
        (case convert_char c w of
           Inl e \<Rightarrow> Inl e
         | Inr w1 \<Rightarrow> Inr (set_seenspace 0 w1))
      else if sp_seenspace (pars w) = 0 then
        Inr (set_seenspace 1 (enqueue_sound InWord (len (inWord w)) w))
      else Inr w)"

fun fetch_loop :: "char list \<Rightarrow> 'a world \<Rightarrow> fatal + 'a world" where
  "fetch_loop [] w = Inr w"
| "fetch_loop (c # cs) w =
     (case fetch_byte c w of Inl e \<Rightarrow> Inl e | Inr w1 \<Rightarrow> fetch_loop cs w1)"

text \<open>
  What \<^verbatim>\<open>read(fd, c, sizeof(c))\<close> gave: \<open>-1\<close>, or the bytes read (at most 64; none at the end
  of the input).  \<open>fetch_chars\<close> returns 1 at the end of the input and 0 otherwise.
\<close>

datatype read_result = Read_failed | Read_bytes "char list"

fun fetch_chars :: "read_result \<Rightarrow> 'a world \<Rightarrow> fatal + (c_int \<times> 'a world)" where
  "fetch_chars Read_failed w = Inl Err_read"
| "fetch_chars (Read_bytes cs) w =
     (if 64 < length cs then Inl (Bad_read (length cs))
      else if cs = [] then Inr (1, w)
      else (case fetch_loop cs w of Inl e \<Rightarrow> Inl e | Inr w1 \<Rightarrow> Inr (0, w1)))"

section \<open>Consumers\<close>

text \<open>
  \<^verbatim>\<open>write(fd, p, n)\<close> on the audio device.  The source tests the result against \<open>-1\<close>
  only and then advances by \<open>n\<close>, so a \<^verbatim>\<open>write\<close> that does not fail is taken to accept
  all \<open>n\<close> bytes.  \<open>k\<close> says which of the coming writes fails, if any
  (\<open>Some 0\<close>: this one).
\<close>

definition write_fd :: "nat option \<Rightarrow> chunk \<Rightarrow> 'a world \<Rightarrow> fatal + 'a world" where
  "write_fd k ch w =
     (if k = Some 0 then Inl Err_write else Inr (w\<lparr>audio_out := audio_out w @ [ch]\<rparr>))"

definition next_write :: "nat option \<Rightarrow> nat option" where
  "next_write k = map_option (\<lambda>i. i - 1) k"

definition advance_head :: "u_int \<Rightarrow> 'a world \<Rightarrow> 'a world" where
  "advance_head res w =
     (case l (playhead w) of
        [] \<Rightarrow> w
      | e # es \<Rightarrow>
          w\<lparr>playhead := (playhead w)
              \<lparr>l := e\<lparr>pl_ptr := pl_ptr e + unat res, pl_res := pl_res e - res\<rparr> # es,
               nsamps := nsamps (playhead w) - res\<rparr>\<rparr>)"

definition remove_head :: "'a world \<Rightarrow> 'a world" where
  "remove_head w =
     (case l (playhead w) of
        [] \<Rightarrow> w
      | e # es \<Rightarrow>
          pl_free e
            (w\<lparr>playhead :=
                \<lparr>l = es, nent = nent (playhead w) - 1,
                 nsamps = nsamps (playhead w) - pl_res e\<rparr>\<rparr>))"

text \<open>
  The \<^verbatim>\<open>for\<close> loop of \<open>feed_audio\<close> in \<^verbatim>\<open>morseplayer.c\<close>, entered with \<open>res\<close> bytes still
  to write.  A turn that does not \<^verbatim>\<open>break\<close> takes the head entry off the queue.
\<close>

function feed_loop :: "nat option \<Rightarrow> u_int \<Rightarrow> 'a world \<Rightarrow> fatal + 'a world" where
  "feed_loop k res w =
     (if res = 0 then Inr w
      else case l (playhead w) of
        [] \<Rightarrow> write_fd k (Quiet (unat res)) w
      | e # es \<Rightarrow>
          if pl_res e > res then
            (case write_fd k (Queued (pl_snd e) (pl_ptr e) (unat res)) w of
               Inl x \<Rightarrow> Inl x
             | Inr w1 \<Rightarrow> Inr (advance_head res w1))
          else
            (case write_fd k (Queued (pl_snd e) (pl_ptr e) (unat (pl_res e))) w of
               Inl x \<Rightarrow> Inl x
             | Inr w1 \<Rightarrow> feed_loop (next_write k) (res - pl_res e) (remove_head w1)))"
  by pat_completeness auto
termination
  by (relation "measure (\<lambda>(k, res, w). length (l (playhead w)))")
     (auto simp: write_fd_def remove_head_def pl_free_def split: if_splits)

definition feed_audio :: "nat option \<Rightarrow> 'a world \<Rightarrow> fatal + 'a world" where
  "feed_audio k w = feed_loop k (sp_blocksize (pars w)) w"

text \<open>
  \<open>mp_callback\<close> of the PortAudio variant: one turn per frame, the sample under the head
  entry's pointer copied to both channels, or two zeros when the queue is empty.  A read
  through a pointer that has left its buffer is undefined in C and is \<open>Bad_pointer\<close>
  here.  The result carries the interleaved output buffer.
\<close>

definition consume_sample :: "'a world \<Rightarrow> 'a world" where
  "consume_sample w =
     (case l (playhead w) of
        [] \<Rightarrow> w
      | e # es \<Rightarrow>
          (let e1 = e\<lparr>pl_ptr := pl_ptr e + 1, pl_res := pl_res e - 1\<rparr>;
               w1 = w\<lparr>playhead := (playhead w)
                      \<lparr>l := e1 # es, nsamps := nsamps (playhead w) - 1\<rparr>\<rparr>
           in if pl_res e1 = 0 then
                pl_free e1
                  (w1\<lparr>playhead := (playhead w1)
                       \<lparr>l := es, nent := nent (playhead w1) - 1\<rparr>\<rparr>)
              else w1))"

fun mp_frames :: "nat \<Rightarrow> ('a::zero) world \<Rightarrow> fatal + ('a list \<times> 'a world)" where
  "mp_frames 0 w = Inr ([], w)"
| "mp_frames (Suc n) w =
     (case l (playhead w) of
        [] \<Rightarrow>
          (case mp_frames n (w\<lparr>audio_out := audio_out w @ [Quiet 1]\<rparr>) of
             Inl x \<Rightarrow> Inl x
           | Inr (out, w') \<Rightarrow> Inr (0 # 0 # out, w'))
      | e # es \<Rightarrow>
          if pl_ptr e < length (buf (sound w (pl_snd e))) then
            (let v = buf (sound w (pl_snd e)) ! pl_ptr e in
             case mp_frames n
                    (consume_sample
                       (w\<lparr>audio_out := audio_out w @ [Queued (pl_snd e) (pl_ptr e) 1]\<rparr>)) of
               Inl x \<Rightarrow> Inl x
             | Inr (out, w') \<Rightarrow> Inr (v # v # out, w'))
          else Inl (Bad_pointer (pl_snd e) (pl_ptr e)))"

definition mp_callback :: "u_int \<Rightarrow> ('a::zero) world \<Rightarrow> fatal + ('a list \<times> 'a world)" where
  "mp_callback framesPerBuffer w = mp_frames (unat framesPerBuffer) w"

section \<open>Main loops\<close>

text \<open>
  What the environment does in one turn of the \<^verbatim>\<open>for (;;)\<close> loop: whether \<^verbatim>\<open>poll\<close> fails,
  whether it reports standard input readable (if that descriptor was registered) and the
  audio device writable, what \<^verbatim>\<open>read\<close> would return, which \<^verbatim>\<open>write\<close> fails, whether the
  drain request fails, and (PortAudio variant) the frame counts of the callbacks that the
  audio thread ran while the main thread was waiting in \<^verbatim>\<open>poll\<close>.  The list of turns is the
  fuel of the loop: \<open>Polling\<close> is the loop still running when the list ends.
\<close>

record poll_ev =
  pe_fail :: bool
  pe_in :: bool
  pe_out :: bool
  pe_read :: read_result
  pe_wfail :: "nat option"
  pe_drain_fail :: bool
  pe_frames :: "u_int list"

datatype 'a outcome = Returned "'a world" | Died fatal | Polling bool "'a world"

definition audio_drain :: "bool \<Rightarrow> 'a world \<Rightarrow> fatal + 'a world" where
  "audio_drain fails w =
     (if fails then Inl Err_audio_drain else Inr (w\<lparr>drained := Suc (drained w)\<rparr>))"

text \<open>The registration test compares an \<^verbatim>\<open>int\<close> with a \<^verbatim>\<open>u_int\<close>, so it is unsigned.\<close>

definition want_input :: "bool \<Rightarrow> 'a world \<Rightarrow> bool" where
  "want_input iseof w = (nsamps (playhead w) < sp_sampthresh (pars w) \<and> \<not> iseof)"

fun main_for :: "poll_ev list \<Rightarrow> bool \<Rightarrow> 'a world \<Rightarrow> 'a outcome" where
  "main_for [] iseof w = Polling iseof w"
| "main_for (ev # evs) iseof w =
     (if pe_fail ev then Died Err_poll
      else
        case (if want_input iseof w \<and> pe_in ev then
                (case fetch_chars (pe_read ev) w of
                   Inl x \<Rightarrow> Inl x
                 | Inr (r, w1) \<Rightarrow> Inr (iseof \<or> r \<noteq> 0, w1))
              else Inr (iseof, w)) of
          Inl x \<Rightarrow> Died x
        | Inr (iseof1, w1) \<Rightarrow>
            if pe_out ev then
              (case feed_audio (pe_wfail ev) w1 of
                 Inl x \<Rightarrow> Died x
               | Inr w2 \<Rightarrow>
                   if iseof1 \<and> l (playhead w2) = [] then
                     (case audio_drain (pe_drain_fail ev) w2 of
                        Inl x \<Rightarrow> Died x
                      | Inr w3 \<Rightarrow> Returned w3)
                   else main_for evs iseof1 w2)
            else main_for evs iseof1 w1)"

definition main_loop :: "bool \<Rightarrow> poll_ev list \<Rightarrow> 'a world \<Rightarrow> 'a outcome" where
  "main_loop kick_fails evs w =
     (case write_fd (if kick_fails then Some 0 else None)
             (Quiet (unat (len (quietBlock w)))) w of
        Inl x \<Rightarrow> Died x
      | Inr w1 \<Rightarrow> main_for evs False w1)"

text \<open>
  The PortAudio variant.  Its loop registers no audio descriptor and leaves at once when
  \<open>fetch_chars\<close> reports the end of the input; \<^verbatim>\<open>iseof\<close> is declared and tested but never
  assigned.  The callbacks run on PortAudio's thread; the model lets them run between the
  registration test and the \<^verbatim>\<open>read\<close>, where the main thread waits.
\<close>

fun callbacks :: "u_int list \<Rightarrow> ('a::zero) world \<Rightarrow> fatal + 'a world" where
  "callbacks [] w = Inr w"
| "callbacks (n # ns) w =
     (case mp_callback n w of
        Inl x \<Rightarrow> Inl x
      | Inr (out, w1) \<Rightarrow> callbacks ns w1)"

fun main_for_pa :: "poll_ev list \<Rightarrow> bool \<Rightarrow> ('a::zero) world \<Rightarrow> 'a outcome" where
  "main_for_pa [] iseof w = Polling iseof w"
| "main_for_pa (ev # evs) iseof w =
     (let reg = want_input iseof w in
      case callbacks (pe_frames ev) w of
        Inl x \<Rightarrow> Died x
      | Inr w0 \<Rightarrow>
          if pe_fail ev then Died Err_poll
          else if reg \<and> pe_in ev then
            (case fetch_chars (pe_read ev) w0 of
               Inl x \<Rightarrow> Died x
             | Inr (r, w1) \<Rightarrow> if r \<noteq> 0 then Returned w1 else main_for_pa evs iseof w1)
          else main_for_pa evs iseof w0)"

definition main_loop_pa :: "poll_ev list \<Rightarrow> ('a::zero) world \<Rightarrow> 'a outcome" where
  "main_loop_pa evs w = main_for_pa evs False w"

section \<open>Silence buffers\<close>

text \<open>
  \<^verbatim>\<open>morseplayer.c\<close>: \<open>len\<close> counts bytes, the buffer is \<open>len\<close> bytes from \<^verbatim>\<open>x_malloc\<close>, all set
  to zero by \<^verbatim>\<open>memset\<close>.  A sample is one byte at precision 8 and two bytes at precision 16.
\<close>

definition build_silence :: "8 word a_sound \<Rightarrow> 8 word a_sound" where
  "build_silence sd = sd\<lparr>buf := replicate (unat (len sd)) 0\<rparr>"

definition build_quiet :: "8 word a_sound \<Rightarrow> s_params \<Rightarrow> 8 word a_sound" where
  "build_quiet sd ps = build_silence (sd\<lparr>len := sp_blocksize ps\<rparr>)"

fun pcm16 :: "8 word list \<Rightarrow> 16 word list" where
  "pcm16 (b0 # b1 # bs) = word_cat b1 b0 # pcm16 bs"
| "pcm16 bs = []"

definition pcm_samples :: "u_int \<Rightarrow> 8 word list \<Rightarrow> int list" where
  "pcm_samples precision bs = (if precision = 8 then map sint bs else map sint (pcm16 bs))"

text \<open>
  PortAudio variant: \<open>len\<close> counts float samples and \<open>buf\<close> is a \<^verbatim>\<open>float *\<close>, but
  \<open>build_silence\<close> still asks \<^verbatim>\<open>x_malloc\<close> for \<open>len\<close> bytes and clears \<open>len\<close> bytes.  An
  object of \<open>n\<close> bytes holds \<open>n div sizeof_float\<close> floats.  (\<open>build_snd\<close> of the same file
  asks for \<^verbatim>\<open>snd->len * sizeof(float)\<close> bytes.)
\<close>

definition sizeof_float :: nat where
  "sizeof_float = 4"

definition floats_in :: "nat \<Rightarrow> nat" where
  "floats_in nbytes = nbytes div sizeof_float"

definition build_silence_pa :: "real a_sound \<Rightarrow> real a_sound" where
  "build_silence_pa sd = sd\<lparr>buf := replicate (floats_in (unat (len sd))) 0\<rparr>"

definition build_quiet_pa :: "real a_sound \<Rightarrow> s_params \<Rightarrow> real a_sound" where
  "build_quiet_pa sd ps = build_silence_pa (sd\<lparr>len := sp_blocksize ps\<rparr>)"

section \<open>Vocabulary of the properties\<close>

text \<open>The entry that \<open>enqueue_sound\<close> links for the sound \<open>s\<close>, and the sounds of a pattern.\<close>

definition fresh_entry :: "'a world \<Rightarrow> snd_ref \<Rightarrow> play_list" where
  "fresh_entry w s = \<lparr>pl_snd = s, pl_ptr = 0, pl_res = len (sound w s)\<rparr>"

definition pattern_segments :: "string \<Rightarrow> snd_ref list" where
  "pattern_segments m = map (\<lambda>p. if p = CHR ''.'' then Dit else Dah) m"

text \<open>The bytes that take the whitespace branch of \<open>fetch_chars\<close>.\<close>

definition is_ws :: "char \<Rightarrow> bool" where
  "is_ws c = ((of_char c :: nat) < 128 \<and> isspace c)"

text \<open>
  Operations on the queue: the enqueue that the encoder performs for a sound
  (\<^verbatim>\<open>enqueue_sound(&s, s.len)\<close>), one \<open>feed_audio\<close> with no failing write, one callback.
\<close>

datatype queue_op = Enqueue snd_ref | Feed_audio | Callback u_int

fun apply_op :: "queue_op \<Rightarrow> ('a::zero) world \<Rightarrow> fatal + 'a world" where
  "apply_op (Enqueue s) w = Inr (enqueue_sound s (len (sound w s)) w)"
| "apply_op Feed_audio w = feed_audio None w"
| "apply_op (Callback n) w =
     (case mp_callback n w of Inl x \<Rightarrow> Inl x | Inr (out, w1) \<Rightarrow> Inr w1)"

fun run_ops :: "queue_op list \<Rightarrow> ('a::zero) world \<Rightarrow> fatal + 'a world" where
  "run_ops [] w = Inr w"
| "run_ops (x # xs) w =
     (case apply_op x w of Inl e \<Rightarrow> Inl e | Inr w1 \<Rightarrow> run_ops xs w1)"

fun enqueued :: "queue_op list \<Rightarrow> snd_ref list" where
  "enqueued [] = []"
| "enqueued (Enqueue s # xs) = s # enqueued xs"
| "enqueued (x # xs) = enqueued xs"

text \<open>
  Sample positions: \<open>(s, i)\<close> is sample \<open>i\<close> of sound \<open>s\<close>.  \<open>played\<close> lists the positions
  written from queue entries so far, \<open>pending\<close> those that the entries in the queue still
  hold, both in order.
\<close>

fun chunk_refs :: "chunk \<Rightarrow> (snd_ref \<times> nat) list" where
  "chunk_refs (Queued s off n) = map (Pair s) [off ..< off + n]"
| "chunk_refs (Quiet n) = []"

definition entry_refs :: "play_list \<Rightarrow> (snd_ref \<times> nat) list" where
  "entry_refs e = map (Pair (pl_snd e)) [pl_ptr e ..< pl_ptr e + unat (pl_res e)]"

definition played :: "'a world \<Rightarrow> (snd_ref \<times> nat) list" where
  "played w = concat (map chunk_refs (audio_out w))"

definition pending :: "'a world \<Rightarrow> (snd_ref \<times> nat) list" where
  "pending w = concat (map entry_refs (l (playhead w)))"

definition chunk_data :: "'a world \<Rightarrow> chunk \<Rightarrow> 'a list" where
  "chunk_data w ch =
     (case ch of
        Queued s off n \<Rightarrow> take n (drop off (buf (sound w s)))
      | Quiet n \<Rightarrow> take n (buf (quietBlock w)))"

text \<open>A small world to evaluate the definitions on.\<close>

definition test_world :: "8 word world" where
  "test_world =
     \<lparr>dit = \<lparr>len = 2, buf = [90, 0]\<rparr>,
      dah = \<lparr>len = 4, buf = [90, 90, 90, 0]\<rparr>,
      inChar = \<lparr>len = 2, buf = [0, 0]\<rparr>,
      inWord = \<lparr>len = 4, buf = [0, 0, 0, 0]\<rparr>,
      quietBlock = \<lparr>len = 3, buf = [0, 0, 0]\<rparr>,
      playhead = \<lparr>l = [], nent = 0, nsamps = 0\<rparr>,
      pl_freelist = \<lparr>l = [], nent = 0, nsamps = 0\<rparr>,
      pars = \<lparr>sp_rate = 40, sp_ditlen = 2, sp_dahlen = 4, sp_inCharlen = 2,
               sp_sampthresh = 6, sp_blocksize = 3, sp_channels = 1, sp_precision = 8,
               sp_seenspace = 0\<rparr>,
      audio_out = [], drained = 0\<rparr>"

definition counters_ok :: "'a world \<Rightarrow> bool" where
  "counters_ok w =
     (nsamps (playhead w) = sum_list (map pl_res (l (playhead w))) \<and>
      nent (playhead w) = of_nat (length (l (playhead w))))"

definition sound_refs :: "'a world \<Rightarrow> snd_ref \<Rightarrow> (snd_ref \<times> nat) list" where
  "sound_refs w s = map (Pair s) [0 ..< unat (len (sound w s))]"

definition nonzero_entries :: "'a world \<Rightarrow> bool" where
  "nonzero_entries w = (\<forall>e \<in> set (l (playhead w)). pl_res e \<noteq> 0)"

fun is_consume :: "queue_op \<Rightarrow> bool" where
  "is_consume (Enqueue s) = False"
| "is_consume Feed_audio = True"
| "is_consume (Callback n) = True"

definition test_world_pa :: "real world" where
  "test_world_pa =
     \<lparr>dit = \<lparr>len = 2, buf = [1 / 2, 0]\<rparr>,
      dah = \<lparr>len = 4, buf = [1 / 2, 1, 1 / 2, 0]\<rparr>,
      inChar = build_silence_pa \<lparr>len = 2, buf = []\<rparr>,
      inWord = build_silence_pa \<lparr>len = 4, buf = []\<rparr>,
      quietBlock = build_quiet_pa \<lparr>len = 0, buf = []\<rparr> (pars test_world),
      playhead = \<lparr>l = [], nent = 0, nsamps = 0\<rparr>,
      pl_freelist = \<lparr>l = [], nent = 0, nsamps = 0\<rparr>,
      pars = pars test_world,
      audio_out = [], drained = 0\<rparr>"

definition ev_input :: "char list \<Rightarrow> poll_ev" where
  "ev_input cs =
     \<lparr>pe_fail = False, pe_in = True, pe_out = False, pe_read = Read_bytes cs,
      pe_wfail = None, pe_drain_fail = False, pe_frames = []\<rparr>"

definition ev_output :: poll_ev where
  "ev_output =
     \<lparr>pe_fail = False, pe_in = False, pe_out = True, pe_read = Read_bytes [],
      pe_wfail = None, pe_drain_fail = False, pe_frames = []\<rparr>"

definition grows :: "'a world \<Rightarrow> 'a world \<Rightarrow> bool" where
  "grows w w' =
     (audio_out w' = audio_out w \<and> drained w' = drained w \<and>
      (\<exists>new. l (playhead w') = l (playhead w) @ new))"

text \<open>
  The lengths come out of \<^verbatim>\<open>float\<close> and \<^verbatim>\<open>double\<close> arithmetic.  It is modelled on the reals
  with the rounding of IEEE 754 written out: every operation gives the exact result
  rounded to nearest, ties to even, at 24 significant bits for \<^verbatim>\<open>float\<close> and 53 for
  \<^verbatim>\<open>double\<close>, each expression evaluated in the precision of its C type (operands of mixed
  type promoted to \<^verbatim>\<open>double\<close>).  The exponent range is not modelled: no value here comes
  near the overflow or subnormal range.  \<open>binade x\<close> is the exponent \<open>e\<close> with
  \<open>2^e \<le> |x| < 2^(e+1)\<close>; \<open>rne\<close> is \<^verbatim>\<open>rintf\<close> in the default rounding mode.
\<close>

definition rne :: "real \<Rightarrow> int" where
  "rne x =
     (let n = \<lfloor>x\<rfloor>; d = x - of_int n
      in if d < 1 / 2 then n else if 1 / 2 < d then n + 1 else if even n then n else n + 1)"

definition binade :: "real \<Rightarrow> int" where
  "binade x =
     (if 1 \<le> \<bar>x\<bar> then bitlen \<lfloor>\<bar>x\<bar>\<rfloor> - 1 else - bitlen (\<lceil>1 / \<bar>x\<bar>\<rceil> - 1))"

definition fl :: "nat \<Rightarrow> real \<Rightarrow> real" where
  "fl p x =
     (if x = 0 then 0
      else of_int (rne (x * 2 powi (int p - 1 - binade x))) * 2 powi (binade x - (int p - 1)))"

definition to_float :: "real \<Rightarrow> real" where
  "to_float x = fl 24 x"

definition to_double :: "real \<Rightarrow> real" where
  "to_double x = fl 53 x"

definition rintf :: "real \<Rightarrow> real" where
  "rintf x = of_int (rne x)"

text \<open>
  Conversions between \<^verbatim>\<open>u_int\<close> and the floating types: towards zero from a float (the
  result wraps where C leaves it undefined), exact to a \<^verbatim>\<open>double\<close>, rounded to a
  \<^verbatim>\<open>float\<close>.
\<close>

definition to_u_int :: "real \<Rightarrow> u_int" where
  "to_u_int x = word_of_int (if 0 \<le> x then \<lfloor>x\<rfloor> else \<lceil>x\<rceil>)"

definition of_u_int :: "u_int \<Rightarrow> real" where
  "of_u_int n = real (unat n)"

text \<open>\<^verbatim>\<open>float u; u = 1.2 / wpm;\<close> with \<open>wpm\<close> one of the two \<^verbatim>\<open>double\<close> globals.\<close>

definition unit_len :: "real \<Rightarrow> real" where
  "unit_len wpm = to_float (to_double (to_double (12 / 10) / wpm))"

text \<open>
  \<open>build_snd\<close>, as far as the length goes: \<^verbatim>\<open>nsamps\<close>, and \<^verbatim>\<open>snd->len\<close> or the \<open>-1\<close> for a
  precision other than 8 and 16 (\<^verbatim>\<open>morseplayer.c\<close>).  The loop that follows fills
  \<^verbatim>\<open>nsamps * sp_channels\<close> samples with \<^verbatim>\<open>sinf\<close> and \<^verbatim>\<open>expf\<close> values and does not touch the
  length.  \<open>build_dit\<close> and \<open>build_dah\<close> call it with 1.0 and 3.0 units and store the length
  in \<open>sp_ditlen\<close> and \<open>sp_dahlen\<close>.
\<close>

definition build_snd_nsamps :: "real \<Rightarrow> u_int \<Rightarrow> real \<Rightarrow> u_int" where
  "build_snd_nsamps charwpm rate units =
     to_u_int (rintf (to_float
       (to_double (to_double (to_double (units + 1) * unit_len charwpm)
          * to_float (of_u_int rate)))))"

definition build_snd_len :: "real \<Rightarrow> s_params \<Rightarrow> real \<Rightarrow> u_int option" where
  "build_snd_len charwpm ps units =
     (if sp_precision ps = 8 \<or> sp_precision ps = 16 then
        Some (build_snd_nsamps charwpm (sp_rate ps) units
                * sp_channels ps * (sp_precision ps div 8))
      else None)"

definition build_dit :: "real \<Rightarrow> s_params \<Rightarrow> (u_int \<times> s_params) option" where
  "build_dit charwpm ps =
     (case build_snd_len charwpm ps 1 of
        None \<Rightarrow> None
      | Some n \<Rightarrow> Some (n, ps\<lparr>sp_ditlen := n\<rparr>))"

definition build_dah :: "real \<Rightarrow> s_params \<Rightarrow> (u_int \<times> s_params) option" where
  "build_dah charwpm ps =
     (case build_snd_len charwpm ps 3 of
        None \<Rightarrow> None
      | Some n \<Rightarrow> Some (n, ps\<lparr>sp_dahlen := n\<rparr>))"

text \<open>
  \<open>build_inChar\<close> and \<open>build_inWord\<close> of \<^verbatim>\<open>morseplayer.c\<close>: the length, and for the former the
  \<open>sp_inCharlen\<close> it stores.  The buffers are those of \<open>build_silence\<close>.
\<close>

definition build_inChar :: "real \<Rightarrow> real \<Rightarrow> s_params \<Rightarrow> u_int \<times> s_params" where
  "build_inChar overallwpm charwpm ps =
     (let samplen =
            (if charwpm \<le> overallwpm then
               to_float (to_double (to_double (3 * unit_len overallwpm)
                 * to_float (of_u_int (sp_rate ps))))
             else
               (let Ta = to_float (to_double
                           (to_double (to_double (60 * charwpm)
                              - to_double (to_double (372 / 10) * overallwpm))
                            / to_double (charwpm * overallwpm)));
                    Tc = to_float (to_double (to_double (3 * Ta) / 19))
                in to_float (Tc * to_float (of_u_int (sp_rate ps)))));
          dit_samps = sp_ditlen ps div (sp_channels ps * (sp_precision ps div 8));
          charu = to_float (to_double (to_float (of_u_int dit_samps) / 2));
          n = to_u_int (to_float
                (to_float (rintf (to_float (samplen - charu))
                   * to_float (of_u_int (sp_channels ps)))
                 * to_float (of_u_int (sp_precision ps div 8))))
      in (n, ps\<lparr>sp_inCharlen := n\<rparr>))"

definition build_inWord :: "real \<Rightarrow> real \<Rightarrow> s_params \<Rightarrow> u_int" where
  "build_inWord overallwpm charwpm ps =
     (let samplen =
            (if charwpm \<le> overallwpm then
               to_float (to_double (to_double (7 * unit_len overallwpm)
                 * to_float (of_u_int (sp_rate ps))))
             else
               (let Ta = to_float (to_double
                           (to_double (to_double (60 * charwpm)
                              - to_double (to_double (372 / 10) * overallwpm))
                            / to_double (charwpm * overallwpm)));
                    Tc = to_float (to_double (to_double (7 * Ta) / 19))
                in to_float (Tc * to_float (of_u_int (sp_rate ps)))));
          ditsamp = to_float (to_double
                      (to_double (to_float (of_u_int (sp_ditlen ps)) / 2)
                       / of_u_int (sp_channels ps * (sp_precision ps div 8))));
          inCharSamp = to_float (of_u_int
                         (sp_inCharlen ps div (sp_channels ps * (sp_precision ps div 8))));
          m = to_float (inCharSamp + ditsamp)
      in to_u_int (rintf (to_float (samplen - m)))
           * sp_channels ps * (sp_precision ps div 8))"

text \<open>
  The lengths that \<open>build_sounds\<close> leaves in \<open>dit\<close>, \<open>dah\<close>, \<open>inChar\<close> and \<open>inWord\<close>, in that
  order; \<open>None\<close> when it fails.
\<close>

record lengths =
  dit_len :: u_int
  dah_len :: u_int
  inChar_len :: u_int
  inWord_len :: u_int

definition build_sounds :: "real \<Rightarrow> real \<Rightarrow> s_params \<Rightarrow> lengths option" where
  "build_sounds overallwpm charwpm ps =
     (case build_dit charwpm ps of
        None \<Rightarrow> None
      | Some (d, ps1) \<Rightarrow>
          (case build_dah charwpm ps1 of
             None \<Rightarrow> None
           | Some (h, ps2) \<Rightarrow>
               (case build_inChar overallwpm charwpm ps2 of
                  (g, ps3) \<Rightarrow>
                    Some \<lparr>dit_len = d, dah_len = h, inChar_len = g,
                          inWord_len = build_inWord overallwpm charwpm ps3\<rparr>)))"

definition eps24 :: real where
  "eps24 = 1 / 2 ^ 24"

definition near :: "real \<Rightarrow> real \<Rightarrow> real \<Rightarrow> bool" where
  "near k y x = (\<bar>y - x\<bar> \<le> k * eps24 * x)"

text \<open>The argument of \<open>rintf\<close> in \<open>build_snd\<close>.\<close>

definition snd_arg :: "real \<Rightarrow> u_int \<Rightarrow> real \<Rightarrow> real" where
  "snd_arg charwpm rate units =
     to_float (to_double (to_double (to_double (units + 1) * unit_len charwpm)
       * to_float (of_u_int rate)))"

text \<open>
  \<^verbatim>\<open>samplen\<close> of \<open>build_inChar\<close> (\<open>k = 3\<close>) and \<open>build_inWord\<close> (\<open>k = 7\<close>), and the gap unit it
  stands for: the character unit without Farnsworth stretch, \<open>Ta / 19\<close> with it.
\<close>

definition gap_samplen :: "real \<Rightarrow> real \<Rightarrow> real \<Rightarrow> u_int \<Rightarrow> real" where
  "gap_samplen k overallwpm charwpm rate =
     (if charwpm \<le> overallwpm then
        to_float (to_double (to_double (k * unit_len overallwpm) * to_float (of_u_int rate)))
      else
        (let Ta = to_float (to_double
                    (to_double (to_double (60 * charwpm)
                       - to_double (to_double (372 / 10) * overallwpm))
                     / to_double (charwpm * overallwpm)));
             Tc = to_float (to_double (to_double (k * Ta) / 19))
         in to_float (Tc * to_float (of_u_int rate))))"

definition gap_unit :: "real \<Rightarrow> real \<Rightarrow> real" where
  "gap_unit overallwpm charwpm =
     (if charwpm \<le> overallwpm then 6 / (5 * overallwpm)
      else (60 * charwpm - (372 / 10) * overallwpm) / (charwpm * overallwpm) / 19)"

text \<open>The lengths in samples, before the factor for channels and bytes per sample.\<close>

definition dit_samples :: "real \<Rightarrow> u_int \<Rightarrow> int" where
  "dit_samples charwpm rate = rne (snd_arg charwpm rate 1)"

definition dah_samples :: "real \<Rightarrow> u_int \<Rightarrow> int" where
  "dah_samples charwpm rate = rne (snd_arg charwpm rate 3)"

definition inChar_samples :: "real \<Rightarrow> real \<Rightarrow> u_int \<Rightarrow> int" where
  "inChar_samples overallwpm charwpm rate =
     rne (to_float (gap_samplen 3 overallwpm charwpm rate
                      - of_int (dit_samples charwpm rate) / 2))"

definition inWord_samples :: "real \<Rightarrow> real \<Rightarrow> u_int \<Rightarrow> int" where
  "inWord_samples overallwpm charwpm rate =
     rne (to_float (gap_samplen 7 overallwpm charwpm rate
                      - (of_int (inChar_samples overallwpm charwpm rate)
                         + of_int (dit_samples charwpm rate) / 2)))"

text \<open>Bytes per frame of the two formats that \<^verbatim>\<open>main\<close> negotiates.\<close>

definition frame_bytes :: "s_params \<Rightarrow> int" where
  "frame_bytes ps = (if sp_channels ps = 1 then 1 else 4)"

definition pcm_format :: "s_params \<Rightarrow> bool" where
  "pcm_format ps =
     (sp_channels ps = 1 \<and> sp_precision ps = 8 \<or> sp_channels ps = 2 \<and> sp_precision ps = 16)"

text \<open>
  \<^verbatim>\<open>perword\<close> of \<open>time_check\<close> (\<^verbatim>\<open>morseplayer.c\<close>): the samples of the word PARIS, ten dits,
  four dahs, five inter-character gaps and one inter-word gap, each product and quotient
  in \<^verbatim>\<open>u_int\<close> and the sum accumulated in a \<^verbatim>\<open>float\<close>.
\<close>

definition perword :: "s_params \<Rightarrow> lengths \<Rightarrow> real" where
  "perword ps L =
     (let p0 = 0;
          p1 = to_float (p0 + to_float (of_u_int
                 (10 * dit_len L div sp_channels ps div (sp_precision ps div 8))));
          p2 = to_float (p1 + to_float (of_u_int
                 (4 * dah_len L div sp_channels ps div (sp_precision ps div 8))));
          p3 = to_float (p2 + to_float (of_u_int
                 (5 * inChar_len L div sp_channels ps div (sp_precision ps div 8))));
          p4 = to_float (p3 + to_float (of_u_int
                 (1 * inWord_len L div sp_channels ps div (sp_precision ps div 8))))
      in p4)"

text \<open>
  The PortAudio variant (\<^verbatim>\<open>unnamed/part_000\<close>): lengths count \<^verbatim>\<open>float\<close> samples, there is no
  factor for channels and bytes per sample, and \<open>build_snd\<close> has no check of the precision.
\<close>

definition build_dit_pa :: "real \<Rightarrow> s_params \<Rightarrow> u_int \<times> s_params" where
  "build_dit_pa charwpm ps =
     (let n = build_snd_nsamps charwpm (sp_rate ps) 1 in (n, ps\<lparr>sp_ditlen := n\<rparr>))"

definition build_dah_pa :: "real \<Rightarrow> s_params \<Rightarrow> u_int \<times> s_params" where
  "build_dah_pa charwpm ps =
     (let n = build_snd_nsamps charwpm (sp_rate ps) 3 in (n, ps\<lparr>sp_dahlen := n\<rparr>))"

definition build_inChar_pa :: "real \<Rightarrow> real \<Rightarrow> s_params \<Rightarrow> u_int \<times> s_params" where
  "build_inChar_pa overallwpm charwpm ps =
     (let samplen =
            (if charwpm \<le> overallwpm then
               to_float (to_double (to_double (3 * unit_len overallwpm)
                 * to_float (of_u_int (sp_rate ps))))
             else
               (let Ta = to_float (to_double
                           (to_double (to_double (60 * charwpm)
                              - to_double (to_double (372 / 10) * overallwpm))
                            / to_double (charwpm * overallwpm)));
                    Tc = to_float (to_double (to_double (3 * Ta) / 19))
                in to_float (Tc * to_float (of_u_int (sp_rate ps)))));
          dit_samps = sp_ditlen ps;
          charu = to_float (to_double (to_float (of_u_int dit_samps) / 2));
          n = to_u_int (rintf (to_float (samplen - charu)))
      in (n, ps\<lparr>sp_inCharlen := n\<rparr>))"

definition build_inWord_pa :: "real \<Rightarrow> real \<Rightarrow> s_params \<Rightarrow> u_int" where
  "build_inWord_pa overallwpm charwpm ps =
     (let samplen =
            (if charwpm \<le> overallwpm then
               to_float (to_double (to_double (7 * unit_len overallwpm)
                 * to_float (of_u_int (sp_rate ps))))
             else
               (let Ta = to_float (to_double
                           (to_double (to_double (60 * charwpm)
                              - to_double (to_double (372 / 10) * overallwpm))
                            / to_double (charwpm * overallwpm)));
                    Tc = to_float (to_double (to_double (7 * Ta) / 19))
                in to_float (Tc * to_float (of_u_int (sp_rate ps)))));
          ditsamp = to_float (to_double (to_float (of_u_int (sp_ditlen ps)) / 2));
          inCharSamp = to_float (of_u_int (sp_inCharlen ps));
          m = to_float (inCharSamp + ditsamp)
      in to_u_int (rintf (to_float (samplen - m))))"

definition build_sounds_pa :: "real \<Rightarrow> real \<Rightarrow> s_params \<Rightarrow> lengths" where
  "build_sounds_pa overallwpm charwpm ps =
     (case build_dit_pa charwpm ps of
        (d, ps1) \<Rightarrow>
          (case build_dah_pa charwpm ps1 of
             (h, ps2) \<Rightarrow>
               (case build_inChar_pa overallwpm charwpm ps2 of
                  (g, ps3) \<Rightarrow>
                    \<lparr>dit_len = d, dah_len = h, inChar_len = g,
                     inWord_len = build_inWord_pa overallwpm charwpm ps3\<rparr>)))"

definition perword_pa :: "lengths \<Rightarrow> real" where
  "perword_pa L =
     (let p0 = 0;
          p1 = to_float (p0 + to_float (of_u_int (10 * dit_len L)));
          p2 = to_float (p1 + to_float (of_u_int (4 * dah_len L)));
          p3 = to_float (p2 + to_float (of_u_int (5 * inChar_len L)));
          p4 = to_float (p3 + to_float (of_u_int (1 * inWord_len L)))
      in p4)"

text \<open>Parameters as \<^verbatim>\<open>main\<close> leaves them before \<open>build_sounds\<close>, for a given device.\<close>

definition test_pars :: "u_int \<Rightarrow> u_int \<Rightarrow> u_int \<Rightarrow> s_params" where
  "test_pars rate channels precision =
     \<lparr>sp_rate = rate, sp_ditlen = 0, sp_dahlen = 0, sp_inCharlen = 0,
      sp_sampthresh = 0, sp_blocksize = 0, sp_channels = channels,
      sp_precision = precision, sp_seenspace = 0\<rparr>"

section \<open>Properties of the encoder\<close>

lemma enqueue_sound_queue:
  "l (playhead (enqueue_sound s n w)) = l (playhead w) @ [\<lparr>pl_snd = s, pl_ptr = 0, pl_res = n\<rparr>]"
  by (simp add: enqueue_sound_def pl_alloc_def playlist_enqueue_def Let_def raw_entry_def)

lemma enqueue_sound_sound [simp]:
  "sound (enqueue_sound s n w) r = sound w r"
  by (cases r) (simp_all add: enqueue_sound_def pl_alloc_def playlist_enqueue_def Let_def)

lemma enqueue_sound_pars [simp]:
  "pars (enqueue_sound s n w) = pars w"
  by (simp add: enqueue_sound_def pl_alloc_def playlist_enqueue_def Let_def)

lemma enqueue_sound_fields [simp]:
  "dit (enqueue_sound s n w) = dit w"
  "dah (enqueue_sound s n w) = dah w"
  "inChar (enqueue_sound s n w) = inChar w"
  "inWord (enqueue_sound s n w) = inWord w"
  "quietBlock (enqueue_sound s n w) = quietBlock w"
  "audio_out (enqueue_sound s n w) = audio_out w"
  "drained (enqueue_sound s n w) = drained w"
  by (simp_all add: enqueue_sound_def pl_alloc_def playlist_enqueue_def Let_def)

lemma play_string_ok:
  "set m \<subseteq> {CHR ''.'', CHR ''-''} \<Longrightarrow>
   \<exists>w'. play_string m w = Inr w' \<and>
     l (playhead w') = l (playhead w) @ map (fresh_entry w) (pattern_segments m @ [InChar]) \<and>
     pars w' = pars w \<and> (\<forall>r. sound w' r = sound w r)"
proof (induction m arbitrary: w)
  case Nil
  then show ?case
    by (simp add: enqueue_sound_queue fresh_entry_def pattern_segments_def)
next
  case (Cons p ps)
  from Cons.prems have ps: "set ps \<subseteq> {CHR ''.'', CHR ''-''}" and p: "p = CHR ''.'' \<or> p = CHR ''-''"
    by auto
  from p show ?case
  proof
    assume dot: "p = CHR ''.''"
    from Cons.IH [OF ps, of "enqueue_sound Dit (len (dit w)) w"] dot show ?thesis
      by (auto simp: enqueue_sound_queue fresh_entry_def pattern_segments_def)
  next
    assume dash: "p = CHR ''-''"
    from Cons.IH [OF ps, of "enqueue_sound Dah (len (dah w)) w"] dash show ?thesis
      by (auto simp: enqueue_sound_queue fresh_entry_def pattern_segments_def)
  qed
qed

lemma distinct_keys: "distinct (map fst morse_chars)"
  by (simp add: morse_chars_def)

lemma patterns_ok: "\<forall>(k, m) \<in> set morse_chars. k \<noteq> CHR 0x00 \<and> m \<noteq> [] \<and> set m \<subseteq> {CHR ''.'', CHR ''-''}"
  by (simp add: morse_chars_def)

lemma convert_scan_hit:
  "distinct (map fst mc) \<Longrightarrow> (c, m) \<in> set mc \<Longrightarrow> convert_scan mc c w = play_string m w"
  by (induction mc) (auto simp: rev_image_eqI)

lemma convert_scan_miss:
  "c \<notin> fst ` set mc \<Longrightarrow> convert_scan mc c w = Inr w"
  by (induction mc) auto

text \<open>
  Claim C3.  A byte whose lower-cased form has an entry in the Morse table makes
  \<open>convert_char\<close> append to the queue, in pattern order, one dit entry for each \<open>.\<close> and one
  dah entry for each \<open>-\<close> of the pattern, and then one inter-character gap; every entry
  starts at the beginning of its sound with the sound's whole length.  On an empty queue the
  input \<open>sos\<close> leaves dit, dit, dit, gap, dah, dah, dah, gap, dit, dit, dit, gap.
\<close>

theorem encoder_table_hit:
  "((lowered c, m) \<in> set morse_chars \<longrightarrow>
     (\<exists>w'. convert_char c w = Inr w' \<and>
        l (playhead w') = l (playhead w) @ map (fresh_entry w) (pattern_segments m @ [InChar]))) \<and>
   (l (playhead w) = [] \<longrightarrow>
     (\<exists>w'. fetch_loop ''sos'' w = Inr w' \<and>
        map pl_snd (l (playhead w')) =
          [Dit, Dit, Dit, InChar, Dah, Dah, Dah, InChar, Dit, Dit, Dit, InChar]))"
proof (intro conjI impI)
  assume hit: "(lowered c, m) \<in> set morse_chars"
  then have "set m \<subseteq> {CHR ''.'', CHR ''-''}"
    using patterns_ok by fastforce
  from play_string_ok [OF this, of w] hit show
    "\<exists>w'. convert_char c w = Inr w' \<and>
        l (playhead w') = l (playhead w) @ map (fresh_entry w) (pattern_segments m @ [InChar])"
    by (auto simp: convert_char_def convert_scan_hit [OF distinct_keys])
next
  assume "l (playhead w) = []"
  then show "\<exists>w'. fetch_loop ''sos'' w = Inr w' \<and>
        map pl_snd (l (playhead w')) =
          [Dit, Dit, Dit, InChar, Dah, Dah, Dah, InChar, Dit, Dit, Dit, InChar]"
    by (simp add: fetch_byte_def convert_char_def lowered_def isupper_def isspace_def
        morse_chars_def enqueue_sound_queue set_seenspace_def)
qed

theorem encoder_table_hit_witness:
  "(lowered (CHR ''S''), ''...'') \<in> set morse_chars \<and>
   (\<exists>w'. convert_char (CHR ''S'') test_world = Inr w' \<and>
      l (playhead w') = l (playhead test_world) @
        map (fresh_entry test_world) (pattern_segments ''...'' @ [InChar])) \<and>
   l (playhead test_world) = [] \<and>
   (\<exists>w'. fetch_loop ''sos'' test_world = Inr w' \<and>
      map pl_snd (l (playhead w')) =
        [Dit, Dit, Dit, InChar, Dah, Dah, Dah, InChar, Dit, Dit, Dit, InChar])"
proof -
  have a: "(lowered (CHR ''S''), ''...'') \<in> set morse_chars"
    by code_simp
  have b: "l (playhead test_world) = []"
    by (simp add: test_world_def)
  from a b encoder_table_hit [of "CHR ''S''" "''...''" test_world] show ?thesis
    by blast
qed

lemma convert_char_total: "\<exists>w'. convert_char c w = Inr w' \<and> pars w' = pars w \<and> (\<forall>r. sound w' r = sound w r)"
proof (cases "lowered c \<in> fst ` set morse_chars")
  case True
  then obtain m where hit: "(lowered c, m) \<in> set morse_chars" by auto
  then have "set m \<subseteq> {CHR ''.'', CHR ''-''}"
    using patterns_ok by fastforce
  from play_string_ok [OF this, of w] hit show ?thesis
    by (auto simp: convert_char_def convert_scan_hit [OF distinct_keys])
next
  case False
  then show ?thesis
    by (simp add: convert_char_def convert_scan_miss)
qed

lemma fetch_loop_ws_set:
  "\<forall>c \<in> set cs. is_ws c \<Longrightarrow> sp_seenspace (pars w) \<noteq> 0 \<Longrightarrow> fetch_loop cs w = Inr w"
  by (induction cs) (auto simp: fetch_byte_def is_ws_def)

lemma fetch_byte_ws_clear:
  "is_ws c \<Longrightarrow> sp_seenspace (pars w) = 0 \<Longrightarrow>
   fetch_byte c w = Inr (set_seenspace 1 (enqueue_sound InWord (len (inWord w)) w))"
  by (auto simp: fetch_byte_def is_ws_def)

lemma fetch_loop_ws_run:
  assumes "cs \<noteq> []" "\<forall>c \<in> set cs. is_ws c" "sp_seenspace (pars w) = 0"
  shows "fetch_loop cs w = Inr (set_seenspace 1 (enqueue_sound InWord (len (inWord w)) w))"
proof (cases cs)
  case Nil
  with assms show ?thesis by simp
next
  case (Cons c cs')
  with assms have c: "is_ws c" and cs': "\<forall>c \<in> set cs'. is_ws c" by auto
  have "sp_seenspace (pars (set_seenspace 1 (enqueue_sound InWord (len (inWord w)) w))) \<noteq> 0"
    by (simp add: set_seenspace_def)
  from fetch_loop_ws_set [OF cs' this] fetch_byte_ws_clear [OF c assms(3)] Cons
  show ?thesis by simp
qed

text \<open>
  Claim C4.  For a whitespace byte \<open>c\<close> (below \<open>0x80\<close> and \<open>isspace\<close>): with the seen-space
  flag clear, one turn of \<open>fetch_chars\<close> appends exactly one inter-word gap and sets the flag
  to 1; with the flag set it changes nothing.  Hence a non-whitespace byte \<open>c0\<close> followed by
  a run \<open>c # cs\<close> of whitespace bytes leaves what \<open>c0\<close> enqueued followed by exactly one
  inter-word gap.
\<close>

theorem whitespace_word_gap:
  "is_ws c \<longrightarrow>
     (sp_seenspace (pars w) = 0 \<longrightarrow>
        (\<exists>w'. fetch_byte c w = Inr w' \<and>
           l (playhead w') = l (playhead w) @ [fresh_entry w InWord] \<and>
           sp_seenspace (pars w') = 1)) \<and>
     (sp_seenspace (pars w) \<noteq> 0 \<longrightarrow> fetch_byte c w = Inr w) \<and>
     (\<forall>c0 cs. \<not> is_ws c0 \<and> (\<forall>x \<in> set cs. is_ws x) \<longrightarrow>
        (\<exists>w1 w'. fetch_byte c0 w = Inr w1 \<and> fetch_loop (c0 # c # cs) w = Inr w' \<and>
           l (playhead w') = l (playhead w1) @ [fresh_entry w InWord] \<and>
           sp_seenspace (pars w') = 1))"
proof (intro impI conjI allI)
  assume ws: "is_ws c"
  {
    assume "sp_seenspace (pars w) = 0"
    with ws show "\<exists>w'. fetch_byte c w = Inr w' \<and>
           l (playhead w') = l (playhead w) @ [fresh_entry w InWord] \<and>
           sp_seenspace (pars w') = 1"
      by (simp add: fetch_byte_ws_clear set_seenspace_def enqueue_sound_queue fresh_entry_def)
  next
    assume "sp_seenspace (pars w) \<noteq> 0"
    with ws show "fetch_byte c w = Inr w"
      by (auto simp: fetch_byte_def is_ws_def)
  next
    fix c0 cs
    assume h: "\<not> is_ws c0 \<and> (\<forall>x \<in> set cs. is_ws x)"
    obtain w0 where w0: "convert_char c0 w = Inr w0" "pars w0 = pars w" "\<forall>r. sound w0 r = sound w r"
      using convert_char_total by blast
    let ?w1 = "set_seenspace 0 w0"
    have b: "fetch_byte c0 w = Inr ?w1"
      using h w0 by (auto simp: fetch_byte_def is_ws_def isspace_def)
    have z: "sp_seenspace (pars ?w1) = 0"
      by (simp add: set_seenspace_def)
    have run: "fetch_loop (c # cs) ?w1 =
        Inr (set_seenspace 1 (enqueue_sound InWord (len (inWord ?w1)) ?w1))"
      using ws h by (intro fetch_loop_ws_run [OF _ _ z]) auto
    have iw: "inWord ?w1 = inWord w"
      using w0(3) [rule_format, of InWord] by (simp add: set_seenspace_def)
    show "\<exists>w1 w'. fetch_byte c0 w = Inr w1 \<and> fetch_loop (c0 # c # cs) w = Inr w' \<and>
           l (playhead w') = l (playhead w1) @ [fresh_entry w InWord] \<and>
           sp_seenspace (pars w') = 1"
      using b run iw
      by (simp add: set_seenspace_def enqueue_sound_queue fresh_entry_def)
  }
qed

theorem whitespace_word_gap_witness:
  "is_ws (CHR '' '') \<and> sp_seenspace (pars test_world) = 0 \<and>
   (\<exists>w'. fetch_byte (CHR '' '') test_world = Inr w' \<and>
      l (playhead w') = l (playhead test_world) @ [fresh_entry test_world InWord] \<and>
      sp_seenspace (pars w') = 1) \<and>
   sp_seenspace (pars (set_seenspace 1 test_world)) \<noteq> 0 \<and>
   fetch_byte (CHR '' '') (set_seenspace 1 test_world) = Inr (set_seenspace 1 test_world) \<and>
   \<not> is_ws (CHR ''e'') \<and> is_ws (CHR 0x0A) \<and> is_ws (CHR 0x09) \<and>
   (\<exists>w1 w'. fetch_byte (CHR ''e'') test_world = Inr w1 \<and>
      fetch_loop [CHR ''e'', CHR '' '', CHR 0x0A, CHR 0x09] test_world = Inr w' \<and>
      l (playhead w') = l (playhead w1) @ [fresh_entry test_world InWord] \<and>
      sp_seenspace (pars w') = 1)"
proof -
  have a: "is_ws (CHR '' '')" by (simp add: is_ws_def isspace_def)
  have b: "sp_seenspace (pars test_world) = 0" by (simp add: test_world_def)
  have c: "sp_seenspace (pars (set_seenspace 1 test_world)) \<noteq> 0"
    by (simp add: set_seenspace_def)
  have d: "\<not> is_ws (CHR ''e'') \<and> (\<forall>x \<in> set [CHR 0x0A, CHR 0x09]. is_ws x)"
    by (simp add: is_ws_def isspace_def)
  from a b d whitespace_word_gap [of "CHR '' ''" test_world]
  have 1: "(\<exists>w'. fetch_byte (CHR '' '') test_world = Inr w' \<and>
      l (playhead w') = l (playhead test_world) @ [fresh_entry test_world InWord] \<and>
      sp_seenspace (pars w') = 1)"
    and 2: "(\<exists>w1 w'. fetch_byte (CHR ''e'') test_world = Inr w1 \<and>
      fetch_loop [CHR ''e'', CHR '' '', CHR 0x0A, CHR 0x09] test_world = Inr w' \<and>
      l (playhead w') = l (playhead w1) @ [fresh_entry test_world InWord] \<and>
      sp_seenspace (pars w') = 1)"
    by blast+
  from a c whitespace_word_gap [of "CHR '' ''" "set_seenspace 1 test_world"]
  have 3: "fetch_byte (CHR '' '') (set_seenspace 1 test_world) = Inr (set_seenspace 1 test_world)"
    by blast
  have e: "is_ws (CHR 0x0A) \<and> is_ws (CHR 0x09)"
    by (simp add: is_ws_def isspace_def)
  from a b c d e 1 2 3 show ?thesis by blast
qed

text \<open>
  Claim C5, as amended.  A byte that is neither whitespace nor (after lower-casing) a key
  of the Morse table enqueues nothing: the queue and its counters are unchanged.  The
  seen-space flag is not left as it was but cleared, as after every non-whitespace byte.
\<close>

theorem unsupported_byte_clears_flag:
  "\<not> is_ws c \<and> lowered c \<notin> fst ` set morse_chars \<longrightarrow>
     fetch_byte c w = Inr (set_seenspace 0 w) \<and>
     playhead (set_seenspace 0 w) = playhead w \<and>
     sp_seenspace (pars (set_seenspace 0 w)) = 0"
  by (auto simp: fetch_byte_def is_ws_def isspace_def convert_char_def convert_scan_miss
      set_seenspace_def)


theorem unsupported_byte_clears_flag_witness:
  "\<not> is_ws (CHR ''@'') \<and> lowered (CHR ''@'') \<notin> fst ` set morse_chars \<and>
   fetch_byte (CHR ''@'') test_world = Inr (set_seenspace 0 test_world) \<and>
   playhead (set_seenspace 0 test_world) = playhead test_world \<and>
   sp_seenspace (pars (set_seenspace 0 test_world)) = 0"
proof -
  have "\<not> is_ws (CHR ''@'') \<and> lowered (CHR ''@'') \<notin> fst ` set morse_chars"
    by (simp add: is_ws_def isspace_def lowered_def isupper_def morse_chars_def)
  with unsupported_byte_clears_flag [of "CHR ''@''" test_world] show ?thesis
    by blast
qed

text \<open>
  Claim C5 as stated fails when the flag is set: after \<open>@\<close> the flag is 0, not 1.
\<close>

theorem unsupported_byte_flag_counterexample:
  "\<not> is_ws (CHR ''@'') \<and> lowered (CHR ''@'') \<notin> fst ` set morse_chars \<and>
   sp_seenspace (pars (set_seenspace 1 test_world)) = 1 \<and>
   fetch_byte (CHR ''@'') (set_seenspace 1 test_world) = Inr (set_seenspace 0 test_world) \<and>
   sp_seenspace (pars (set_seenspace 0 test_world)) = 0"
  by (simp add: is_ws_def isspace_def lowered_def isupper_def morse_chars_def
      fetch_byte_def convert_char_def set_seenspace_def)

lemma patterns_okD:
  "(k, m) \<in> set morse_chars \<Longrightarrow> k \<noteq> CHR 0x00 \<and> m \<noteq> [] \<and> set m \<subseteq> {CHR ''.'', CHR ''-''}"
  using patterns_ok by fastforce

text \<open>
  Claim C10.  Every entry of the Morse table has a non-NUL key and a non-empty pattern made
  of \<open>.\<close> and \<open>-\<close> only, so \<open>play_string\<close> on a pattern of the table never takes its
  \<^verbatim>\<open>errx\<close> branch, and \<open>convert_char\<close> never ends the process, whatever the byte.
\<close>

theorem mtable_patterns_valid:
  "(\<forall>(k, m) \<in> set morse_chars.
      k \<noteq> CHR 0x00 \<and> m \<noteq> [] \<and> set m \<subseteq> {CHR ''.'', CHR ''-''} \<and>
      (\<forall>w :: 'a world. \<exists>w'. play_string m w = Inr w')) \<and>
   (\<forall>c (w :: 'a world). \<exists>w'. convert_char c w = Inr w')"
proof (intro conjI allI ballI)
  fix x assume x: "x \<in> set morse_chars"
  obtain k m where km: "x = (k, m)" by (cases x)
  from x km have ok: "k \<noteq> CHR 0x00 \<and> m \<noteq> [] \<and> set m \<subseteq> {CHR ''.'', CHR ''-''}"
    by (simp add: patterns_okD)
  have "\<exists>w'. play_string m w = Inr w'" for w :: "'a world"
    using play_string_ok [of m w] ok by auto
  with ok km show "case x of (k, m) \<Rightarrow>
      k \<noteq> CHR 0x00 \<and> m \<noteq> [] \<and> set m \<subseteq> {CHR ''.'', CHR ''-''} \<and>
      (\<forall>w :: 'a world. \<exists>w'. play_string m w = Inr w')"
    by simp
next
  fix c and w :: "'a world"
  show "\<exists>w'. convert_char c w = Inr w'"
    using convert_char_total [of c w] by auto
qed

theorem mtable_patterns_valid_witness:
  "(CHR ''?'', ''..--..'') \<in> set morse_chars \<and>
   ''..--..'' \<noteq> [] \<and> set ''..--..'' \<subseteq> {CHR ''.'', CHR ''-''} \<and>
   (\<exists>w'. play_string ''..--..'' test_world = Inr w') \<and>
   (\<exists>w'. convert_char (CHR ''?'') test_world = Inr w')"
proof -
  have a: "(CHR ''?'', ''..--..'') \<in> set morse_chars"
    by (simp add: morse_chars_def)
  note T = mtable_patterns_valid [where 'a = "8 word"]
  from T [THEN conjunct1, THEN bspec, OF a]
  have 1: "''..--..'' \<noteq> [] \<and> set ''..--..'' \<subseteq> {CHR ''.'', CHR ''-''}"
    and 2: "\<exists>w'. play_string ''..--..'' test_world = Inr w'"
    by simp_all
  from T [THEN conjunct2, THEN spec, THEN spec, of "CHR ''?''" test_world]
  have 3: "\<exists>w'. convert_char (CHR ''?'') test_world = Inr w'" .
  from a 1 2 3 show ?thesis by simp
qed

section \<open>Properties of the queue\<close>

lemma playlist_init_counters: "counters_ok (playlist_init w)"
  by (simp add: counters_ok_def playlist_init_def)

lemma enqueue_sound_playhead:
  "playhead (enqueue_sound s n w) =
     \<lparr>l = l (playhead w) @ [\<lparr>pl_snd = s, pl_ptr = 0, pl_res = n\<rparr>],
      nent = nent (playhead w) + 1,
      nsamps = nsamps (playhead w) + len (sound w s)\<rparr>"
  by (cases s) (simp_all add: enqueue_sound_def pl_alloc_def playlist_enqueue_def Let_def)

lemma enqueue_counters:
  "counters_ok w \<Longrightarrow> counters_ok (enqueue_sound s (len (sound w s)) w)"
  by (simp add: counters_ok_def enqueue_sound_playhead)

lemma write_fd_Inr:
  "write_fd k ch w = Inr w1 \<Longrightarrow> w1 = w\<lparr>audio_out := audio_out w @ [ch]\<rparr>"
  by (auto simp: write_fd_def split: if_splits)

lemma feed_loop_counters:
  "counters_ok w \<Longrightarrow> feed_loop k res w = Inr w' \<Longrightarrow> counters_ok w'"
proof (induction k res w rule: feed_loop.induct)
  case (1 k res w)
  show ?case
  proof (cases "res = 0")
    case True
    with "1.prems" show ?thesis by simp
  next
    case nz: False
    show ?thesis
    proof (cases "l (playhead w)")
      case Nil
      with nz "1.prems" show ?thesis
        by (auto simp: counters_ok_def dest!: write_fd_Inr)
    next
      case (Cons e es)
      show ?thesis
      proof (cases "pl_res e > res")
        case True
        with nz Cons "1.prems" show ?thesis
          by (auto simp: counters_ok_def advance_head_def dest!: write_fd_Inr split: sum.splits)
      next
        case False
        from nz Cons False "1.prems"(2) obtain w1 where
          w1: "write_fd k (Queued (pl_snd e) (pl_ptr e) (unat (pl_res e))) w = Inr w1"
          and run: "feed_loop (next_write k) (res - pl_res e) (remove_head w1) = Inr w'"
          by (auto split: sum.splits)
        have "counters_ok (remove_head w1)"
          using "1.prems"(1) Cons write_fd_Inr [OF w1]
          by (simp add: counters_ok_def remove_head_def pl_free_def)
        from "1.IH" [OF nz Cons False w1 this run] show ?thesis .
      qed
    qed
  qed
qed

lemma consume_sample_counters:
  "counters_ok w \<Longrightarrow> counters_ok (consume_sample w)"
  by (auto simp: counters_ok_def consume_sample_def pl_free_def Let_def split: list.splits)

lemma counters_audio_out [simp]:
  "counters_ok (w\<lparr>audio_out := x\<rparr>) = counters_ok w"
  by (simp add: counters_ok_def)

lemma mp_frames_counters:
  "counters_ok w \<Longrightarrow> mp_frames n w = Inr (out, w') \<Longrightarrow> counters_ok w'"
proof (induction n arbitrary: w out)
  case 0
  then show ?case by simp
next
  case (Suc n)
  show ?case
  proof (cases "l (playhead w)")
    case Nil
    with Suc.prems(2) obtain out1 where
      "mp_frames n (w\<lparr>audio_out := audio_out w @ [Quiet 1]\<rparr>) = Inr (out1, w')"
      by (auto split: sum.splits)
    from Suc.IH [OF _ this] Suc.prems(1) show ?thesis by simp
  next
    case (Cons e es)
    with Suc.prems(2) obtain out1 where
      "mp_frames n (consume_sample
         (w\<lparr>audio_out := audio_out w @ [Queued (pl_snd e) (pl_ptr e) 1]\<rparr>)) = Inr (out1, w')"
      by (auto simp: Let_def split: sum.splits if_splits)
    from Suc.IH [OF _ this] Suc.prems(1) show ?thesis
      by (simp add: consume_sample_counters)
  qed
qed

lemma apply_op_counters:
  "counters_ok w \<Longrightarrow> apply_op x w = Inr w' \<Longrightarrow> counters_ok w'"
proof (cases x)
  case (Enqueue s)
  assume "counters_ok w" "apply_op x w = Inr w'"
  with Enqueue show ?thesis by (auto simp: enqueue_counters)
next
  case Feed_audio
  assume "counters_ok w" "apply_op x w = Inr w'"
  with Feed_audio show ?thesis
    by (auto simp: feed_audio_def simp del: feed_loop.simps dest: feed_loop_counters)
next
  case (Callback n)
  assume "counters_ok w" "apply_op x w = Inr w'"
  with Callback show ?thesis
    by (auto simp: mp_callback_def split: sum.splits dest: mp_frames_counters)
qed

lemma run_ops_counters:
  "counters_ok w \<Longrightarrow> run_ops ops w = Inr w' \<Longrightarrow> counters_ok w'"
  by (induction ops arbitrary: w) (auto split: sum.splits dest: apply_op_counters)

lemma refs_split:
  "n \<le> m \<Longrightarrow> map (Pair s) [p ..< p + n] @ map (Pair s) [p + n ..< p + m] = map (Pair s) [p ..< p + m]"
proof -
  assume le: "n \<le> m"
  have "[p ..< (p + n) + (m - n)] = [p ..< p + n] @ [p + n ..< (p + n) + (m - n)]"
    by (rule upt_add_eq_append) simp
  with le have "[p ..< p + m] = [p ..< p + n] @ [p + n ..< p + m]" by simp
  then show ?thesis by simp
qed

lemma feed_loop_timeline:
  "feed_loop k res w = Inr w' \<Longrightarrow> played w' @ pending w' = played w @ pending w"
proof (induction k res w rule: feed_loop.induct)
  case (1 k res w)
  show ?case
  proof (cases "res = 0")
    case True
    with "1.prems" show ?thesis by simp
  next
    case nz: False
    show ?thesis
    proof (cases "l (playhead w)")
      case Nil
      with nz "1.prems" show ?thesis
        by (auto simp: played_def pending_def dest!: write_fd_Inr)
    next
      case (Cons e es)
      show ?thesis
      proof (cases "pl_res e > res")
        case True
        then have le: "unat res \<le> unat (pl_res e)"
          by (simp add: word_less_nat_alt)
        from True have sub: "unat (pl_res e - res) = unat (pl_res e) - unat res"
          by (simp add: unat_sub)
        from nz Cons True "1.prems" have
          w': "w' = advance_head res (w\<lparr>audio_out := audio_out w @ [Queued (pl_snd e) (pl_ptr e) (unat res)]\<rparr>)"
          by (auto dest!: write_fd_Inr split: sum.splits)
        have "map (Pair (pl_snd e)) [pl_ptr e ..< pl_ptr e + unat res] @
              map (Pair (pl_snd e)) [pl_ptr e + unat res ..< pl_ptr e + unat res + (unat (pl_res e) - unat res)]
              = map (Pair (pl_snd e)) [pl_ptr e ..< pl_ptr e + unat (pl_res e)]"
          using refs_split [OF le, of "pl_snd e" "pl_ptr e"] le by simp
        then show ?thesis
          using Cons sub
          by (simp add: w' played_def pending_def advance_head_def entry_refs_def)
      next
        case False
        from nz Cons False "1.prems" obtain w1 where
          w1: "write_fd k (Queued (pl_snd e) (pl_ptr e) (unat (pl_res e))) w = Inr w1"
          and run: "feed_loop (next_write k) (res - pl_res e) (remove_head w1) = Inr w'"
          by (auto split: sum.splits)
        have "played (remove_head w1) @ pending (remove_head w1) = played w @ pending w"
          using Cons write_fd_Inr [OF w1]
          by (simp add: played_def pending_def remove_head_def pl_free_def entry_refs_def)
        with "1.IH" [OF nz Cons False w1 run] show ?thesis by simp
      qed
    qed
  qed
qed

lemma feed_loop_removed:
  "feed_loop k res w = Inr w' \<Longrightarrow>
   \<exists>r. map pl_snd (l (playhead w)) = r @ map pl_snd (l (playhead w'))"
proof (induction k res w rule: feed_loop.induct)
  case (1 k res w)
  show ?case
  proof (cases "res = 0")
    case True
    with "1.prems" show ?thesis by simp
  next
    case nz: False
    show ?thesis
    proof (cases "l (playhead w)")
      case Nil
      with nz "1.prems" show ?thesis
        by (auto dest!: write_fd_Inr)
    next
      case (Cons e es)
      show ?thesis
      proof (cases "pl_res e > res")
        case True
        with nz Cons "1.prems" show ?thesis
          by (auto simp: advance_head_def dest!: write_fd_Inr split: sum.splits)
      next
        case False
        from nz Cons False "1.prems" obtain w1 where
          w1: "write_fd k (Queued (pl_snd e) (pl_ptr e) (unat (pl_res e))) w = Inr w1"
          and run: "feed_loop (next_write k) (res - pl_res e) (remove_head w1) = Inr w'"
          by (auto split: sum.splits)
        have "map pl_snd (l (playhead w)) = [pl_snd e] @ map pl_snd (l (playhead (remove_head w1)))"
          using Cons write_fd_Inr [OF w1]
          by (simp add: remove_head_def pl_free_def)
        with "1.IH" [OF nz Cons False w1 run] show ?thesis
          by (metis append.assoc)
      qed
    qed
  qed
qed

lemma feed_loop_nonzero:
  "nonzero_entries w \<Longrightarrow> feed_loop k res w = Inr w' \<Longrightarrow> nonzero_entries w'"
proof (induction k res w rule: feed_loop.induct)
  case (1 k res w)
  show ?case
  proof (cases "res = 0")
    case True
    with "1.prems" show ?thesis by simp
  next
    case nz: False
    show ?thesis
    proof (cases "l (playhead w)")
      case Nil
      with nz "1.prems" show ?thesis
        by (auto simp: nonzero_entries_def dest!: write_fd_Inr)
    next
      case (Cons e es)
      show ?thesis
      proof (cases "pl_res e > res")
        case True
        with nz Cons "1.prems" show ?thesis
          by (auto simp: nonzero_entries_def advance_head_def dest!: write_fd_Inr split: sum.splits)
      next
        case False
        from nz Cons False "1.prems"(2) obtain w1 where
          w1: "write_fd k (Queued (pl_snd e) (pl_ptr e) (unat (pl_res e))) w = Inr w1"
          and run: "feed_loop (next_write k) (res - pl_res e) (remove_head w1) = Inr w'"
          by (auto split: sum.splits)
        have "nonzero_entries (remove_head w1)"
          using "1.prems"(1) Cons write_fd_Inr [OF w1]
          by (simp add: nonzero_entries_def remove_head_def pl_free_def)
        from "1.IH" [OF nz Cons False w1 this run] show ?thesis .
      qed
    qed
  qed
qed

lemma consume_sample_removed:
  "\<exists>r. map pl_snd (l (playhead w)) = r @ map pl_snd (l (playhead (consume_sample w)))"
proof (cases "l (playhead w)")
  case Nil
  then show ?thesis by (simp add: consume_sample_def)
next
  case (Cons e es)
  show ?thesis
  proof (cases "pl_res e - 1 = 0")
    case True
    with Cons have "map pl_snd (l (playhead w)) = [pl_snd e] @ map pl_snd (l (playhead (consume_sample w)))"
      by (simp add: consume_sample_def pl_free_def Let_def)
    then show ?thesis by blast
  next
    case False
    with Cons have "map pl_snd (l (playhead w)) = [] @ map pl_snd (l (playhead (consume_sample w)))"
      by (simp add: consume_sample_def pl_free_def Let_def)
    then show ?thesis by blast
  qed
qed

lemma consume_sample_nonzero:
  "nonzero_entries w \<Longrightarrow> nonzero_entries (consume_sample w)"
  by (auto simp: nonzero_entries_def consume_sample_def pl_free_def Let_def split: list.splits)

lemma consume_sample_timeline:
  assumes "l (playhead w) = e # es" "pl_res e \<noteq> 0"
  shows "played (consume_sample (w\<lparr>audio_out := audio_out w @ [Queued (pl_snd e) (pl_ptr e) 1]\<rparr>)) @
         pending (consume_sample (w\<lparr>audio_out := audio_out w @ [Queued (pl_snd e) (pl_ptr e) 1]\<rparr>))
         = played w @ pending w"
proof -
  from assms(2) have pos: "1 \<le> unat (pl_res e)"
    by (simp add: unat_gt_0 Suc_leI)
  from assms(2) have sub: "unat (pl_res e - 1) = unat (pl_res e) - 1"
    by (simp add: unat_minus_one)
  have "map (Pair (pl_snd e)) [pl_ptr e ..< pl_ptr e + 1] @
        map (Pair (pl_snd e)) [pl_ptr e + 1 ..< pl_ptr e + unat (pl_res e)]
        = map (Pair (pl_snd e)) [pl_ptr e ..< pl_ptr e + unat (pl_res e)]"
    using refs_split [OF pos, of "pl_snd e" "pl_ptr e"] .
  moreover have "pl_res e - 1 = 0 \<Longrightarrow> unat (pl_res e) = 1"
    using sub pos by simp
  ultimately show ?thesis
    using assms(1) sub pos
    by (auto simp: played_def pending_def consume_sample_def pl_free_def Let_def entry_refs_def)
qed

lemma mp_frames_removed:
  "mp_frames n w = Inr (out, w') \<Longrightarrow>
   \<exists>r. map pl_snd (l (playhead w)) = r @ map pl_snd (l (playhead w'))"
proof (induction n arbitrary: w out)
  case 0
  then show ?case by simp
next
  case (Suc n)
  show ?case
  proof (cases "l (playhead w)")
    case Nil
    with Suc.prems obtain out1 where
      "mp_frames n (w\<lparr>audio_out := audio_out w @ [Quiet 1]\<rparr>) = Inr (out1, w')"
      by (auto split: sum.splits)
    from Suc.IH [OF this] Nil show ?thesis by simp
  next
    case (Cons e es)
    let ?w1 = "w\<lparr>audio_out := audio_out w @ [Queued (pl_snd e) (pl_ptr e) 1]\<rparr>"
    from Cons Suc.prems obtain out1 where
      "mp_frames n (consume_sample ?w1) = Inr (out1, w')"
      by (auto simp: Let_def split: sum.splits if_splits)
    from Suc.IH [OF this] obtain r2 where
      r2: "map pl_snd (l (playhead (consume_sample ?w1))) = r2 @ map pl_snd (l (playhead w'))"
      by blast
    from consume_sample_removed [of ?w1] obtain r1 where
      "map pl_snd (l (playhead w)) = r1 @ map pl_snd (l (playhead (consume_sample ?w1)))"
      by auto
    with r2 have "map pl_snd (l (playhead w)) = (r1 @ r2) @ map pl_snd (l (playhead w'))"
      by simp
    then show ?thesis by blast
  qed
qed

lemma nonzero_audio_out [simp]:
  "nonzero_entries (w\<lparr>audio_out := x\<rparr>) = nonzero_entries w"
  by (simp add: nonzero_entries_def)

lemma mp_frames_nonzero:
  "nonzero_entries w \<Longrightarrow> mp_frames n w = Inr (out, w') \<Longrightarrow> nonzero_entries w'"
proof (induction n arbitrary: w out)
  case 0
  then show ?case by simp
next
  case (Suc n)
  show ?case
  proof (cases "l (playhead w)")
    case Nil
    with Suc.prems(2) obtain out1 where
      "mp_frames n (w\<lparr>audio_out := audio_out w @ [Quiet 1]\<rparr>) = Inr (out1, w')"
      by (auto split: sum.splits)
    from Suc.IH [OF _ this] Suc.prems(1) show ?thesis by simp
  next
    case (Cons e es)
    with Suc.prems(2) obtain out1 where
      "mp_frames n (consume_sample
         (w\<lparr>audio_out := audio_out w @ [Queued (pl_snd e) (pl_ptr e) 1]\<rparr>)) = Inr (out1, w')"
      by (auto simp: Let_def split: sum.splits if_splits)
    from Suc.IH [OF _ this] Suc.prems(1) show ?thesis
      by (simp add: consume_sample_nonzero)
  qed
qed

lemma mp_frames_timeline:
  "nonzero_entries w \<Longrightarrow> mp_frames n w = Inr (out, w') \<Longrightarrow>
   played w' @ pending w' = played w @ pending w"
proof (induction n arbitrary: w out)
  case 0
  then show ?case by simp
next
  case (Suc n)
  show ?case
  proof (cases "l (playhead w)")
    case Nil
    let ?w1 = "w\<lparr>audio_out := audio_out w @ [Quiet 1]\<rparr>"
    from Nil Suc.prems(2) obtain out1 where
      "mp_frames n ?w1 = Inr (out1, w')"
      by (auto split: sum.splits)
    from Suc.IH [OF _ this] Suc.prems(1)
    have "played w' @ pending w' = played ?w1 @ pending ?w1" by simp
    then show ?thesis by (simp add: played_def pending_def)
  next
    case (Cons e es)
    let ?w1 = "w\<lparr>audio_out := audio_out w @ [Queued (pl_snd e) (pl_ptr e) 1]\<rparr>"
    from Cons Suc.prems(2) obtain out1 where
      run: "mp_frames n (consume_sample ?w1) = Inr (out1, w')"
      by (auto simp: Let_def split: sum.splits if_splits)
    from Suc.prems(1) Cons have nz: "pl_res e \<noteq> 0"
      by (simp add: nonzero_entries_def)
    have "nonzero_entries (consume_sample ?w1)"
      using Suc.prems(1) by (simp add: consume_sample_nonzero)
    from Suc.IH [OF this run] consume_sample_timeline [OF Cons nz]
    show ?thesis by simp
  qed
qed

lemma enqueue_timeline:
  "played (enqueue_sound s (len (sound w s)) w) @ pending (enqueue_sound s (len (sound w s)) w)
   = played w @ pending w @ sound_refs w s"
  by (simp add: played_def pending_def enqueue_sound_queue entry_refs_def sound_refs_def)

lemma enqueue_nonzero:
  "nonzero_entries w \<Longrightarrow> len (sound w s) \<noteq> 0 \<Longrightarrow>
   nonzero_entries (enqueue_sound s (len (sound w s)) w)"
  by (simp add: nonzero_entries_def enqueue_sound_queue)

lemma feed_loop_sound:
  "feed_loop k res w = Inr w' \<Longrightarrow> sound w' r = sound w r"
proof (induction k res w rule: feed_loop.induct)
  case (1 k res w)
  show ?case
  proof (cases "res = 0")
    case True
    with "1.prems" show ?thesis by simp
  next
    case nz: False
    show ?thesis
    proof (cases "l (playhead w)")
      case Nil
      with nz "1.prems" show ?thesis
        by (cases r) (auto dest!: write_fd_Inr)
    next
      case (Cons e es)
      show ?thesis
      proof (cases "pl_res e > res")
        case True
        with nz Cons "1.prems" show ?thesis
          by (cases r) (auto simp: advance_head_def dest!: write_fd_Inr split: sum.splits)
      next
        case False
        from nz Cons False "1.prems" obtain w1 where
          w1: "write_fd k (Queued (pl_snd e) (pl_ptr e) (unat (pl_res e))) w = Inr w1"
          and run: "feed_loop (next_write k) (res - pl_res e) (remove_head w1) = Inr w'"
          by (auto split: sum.splits)
        have "sound (remove_head w1) r = sound w r"
          using Cons write_fd_Inr [OF w1]
          by (cases r) (simp_all add: remove_head_def pl_free_def)
        with "1.IH" [OF nz Cons False w1 run] show ?thesis by simp
      qed
    qed
  qed
qed

lemma consume_sample_sound [simp]: "sound (consume_sample w) r = sound w r"
  by (cases r) (auto simp: consume_sample_def pl_free_def Let_def split: list.splits)

lemma sound_audio_out [simp]: "sound (w\<lparr>audio_out := x\<rparr>) r = sound w r"
  by (cases r) simp_all

lemma mp_frames_sound:
  "mp_frames n w = Inr (out, w') \<Longrightarrow> sound w' r = sound w r"
proof (induction n arbitrary: w out)
  case 0
  then show ?case by simp
next
  case (Suc n)
  show ?case
  proof (cases "l (playhead w)")
    case Nil
    with Suc.prems obtain out1 where
      "mp_frames n (w\<lparr>audio_out := audio_out w @ [Quiet 1]\<rparr>) = Inr (out1, w')"
      by (auto split: sum.splits)
    from Suc.IH [OF this] show ?thesis by simp
  next
    case (Cons e es)
    with Suc.prems obtain out1 where
      "mp_frames n (consume_sample
         (w\<lparr>audio_out := audio_out w @ [Queued (pl_snd e) (pl_ptr e) 1]\<rparr>)) = Inr (out1, w')"
      by (auto simp: Let_def split: sum.splits if_splits)
    from Suc.IH [OF this] show ?thesis by simp
  qed
qed

lemma apply_op_sound:
  "apply_op x w = Inr w' \<Longrightarrow> sound w' r = sound w r"
  by (cases x)
     (auto simp: feed_audio_def mp_callback_def simp del: feed_loop.simps split: sum.splits
           dest: feed_loop_sound mp_frames_sound)

lemma apply_op_removed:
  "apply_op x w = Inr w' \<Longrightarrow>
   \<exists>r. map pl_snd (l (playhead w)) @ enqueued [x] = r @ map pl_snd (l (playhead w'))"
proof (cases x)
  case (Enqueue s)
  assume "apply_op x w = Inr w'"
  with Enqueue have "map pl_snd (l (playhead w)) @ enqueued [x] = [] @ map pl_snd (l (playhead w'))"
    by (auto simp: enqueue_sound_queue)
  then show ?thesis by blast
next
  case Feed_audio
  assume "apply_op x w = Inr w'"
  with Feed_audio show ?thesis
    by (auto simp: feed_audio_def simp del: feed_loop.simps dest: feed_loop_removed)
next
  case (Callback n)
  assume "apply_op x w = Inr w'"
  with Callback show ?thesis
    by (auto simp: mp_callback_def split: sum.splits dest: mp_frames_removed)
qed

lemma enqueued_Cons: "enqueued (x # xs) = enqueued [x] @ enqueued xs"
  by (cases x) simp_all

lemma run_ops_removed:
  "run_ops ops w = Inr w' \<Longrightarrow>
   \<exists>r. map pl_snd (l (playhead w)) @ enqueued ops = r @ map pl_snd (l (playhead w'))"
proof (induction ops arbitrary: w)
  case Nil
  then show ?case by simp
next
  case (Cons x xs)
  from Cons.prems obtain w1 where
    step: "apply_op x w = Inr w1" and rest: "run_ops xs w1 = Inr w'"
    by (auto split: sum.splits)
  from apply_op_removed [OF step] obtain r1 where
    r1: "map pl_snd (l (playhead w)) @ enqueued [x] = r1 @ map pl_snd (l (playhead w1))"
    by blast
  from Cons.IH [OF rest] obtain r2 where
    r2: "map pl_snd (l (playhead w1)) @ enqueued xs = r2 @ map pl_snd (l (playhead w'))"
    by blast
  have "map pl_snd (l (playhead w)) @ enqueued (x # xs)
        = (map pl_snd (l (playhead w)) @ enqueued [x]) @ enqueued xs"
    using enqueued_Cons [of x xs] by simp
  also have "\<dots> = r1 @ (map pl_snd (l (playhead w1)) @ enqueued xs)"
    using r1 by simp
  also have "\<dots> = (r1 @ r2) @ map pl_snd (l (playhead w'))"
    using r2 by simp
  finally show ?case by blast
qed

lemma apply_op_timeline:
  assumes "apply_op x w = Inr w'" "nonzero_entries w" "\<forall>s \<in> set (enqueued [x]). len (sound w s) \<noteq> 0"
  shows "nonzero_entries w' \<and>
         played w' @ pending w' = played w @ pending w @ concat (map (sound_refs w) (enqueued [x]))"
proof (cases x)
  case (Enqueue s)
  with assms show ?thesis
    by (auto simp: enqueue_timeline enqueue_nonzero)
next
  case Feed_audio
  with assms show ?thesis
    by (auto simp: feed_audio_def simp del: feed_loop.simps
        dest: feed_loop_timeline feed_loop_nonzero)
next
  case (Callback n)
  with assms show ?thesis
    by (auto simp: mp_callback_def split: sum.splits dest: mp_frames_timeline mp_frames_nonzero)
qed

lemma sound_refs_cong: "(\<And>r. sound w1 r = sound w r) \<Longrightarrow> sound_refs w1 = sound_refs w"
  by (rule ext) (simp add: sound_refs_def)

lemma run_ops_timeline:
  "run_ops ops w = Inr w' \<Longrightarrow> nonzero_entries w \<Longrightarrow>
   \<forall>s \<in> set (enqueued ops). len (sound w s) \<noteq> 0 \<Longrightarrow>
   played w' @ pending w' = played w @ pending w @ concat (map (sound_refs w) (enqueued ops))"
proof (induction ops arbitrary: w)
  case Nil
  then show ?case by simp
next
  case (Cons x xs)
  from Cons.prems(1) obtain w1 where
    step: "apply_op x w = Inr w1" and rest: "run_ops xs w1 = Inr w'"
    by (auto split: sum.splits)
  have snd1: "\<And>r. sound w1 r = sound w r"
    using apply_op_sound [OF step] .
  have split: "enqueued (x # xs) = enqueued [x] @ enqueued xs"
    by (rule enqueued_Cons)
  from Cons.prems(3) split have
    nzx: "\<forall>s \<in> set (enqueued [x]). len (sound w s) \<noteq> 0" and
    nzxs: "\<forall>s \<in> set (enqueued xs). len (sound w1 s) \<noteq> 0"
    by (auto simp: snd1)
  from apply_op_timeline [OF step Cons.prems(2) nzx] have
    nz1: "nonzero_entries w1" and
    t1: "played w1 @ pending w1 = played w @ pending w @ concat (map (sound_refs w) (enqueued [x]))"
    by simp_all
  from Cons.IH [OF rest nz1 nzxs] have
    "played w' @ pending w' = played w1 @ pending w1 @ concat (map (sound_refs w1) (enqueued xs))" .
  with t1 show ?case
    by (simp add: split sound_refs_cong [of w1 w, OF snd1])
qed

lemma word_sum_unat:
  "sum_list (map pl_res xs) = (of_nat (sum_list (map (unat \<circ> pl_res) xs)) :: 32 word)"
  by (induction xs) simp_all

lemma sint_of_nat_small:
  assumes "n < 2 ^ 31"
  shows "sint (of_nat n :: 32 word) = int n"
proof -
  have "sint (of_nat n :: 32 word) = (int n + 2 ^ 31) mod 2 ^ 32 - 2 ^ 31"
    using int_word_sint [of "int n", where 'a = 32] by simp
  moreover from assms have "(int n + 2 ^ 31) mod 2 ^ 32 = int n + 2 ^ 31"
    by simp
  ultimately show ?thesis by simp
qed

lemma playlist_init_facts:
  "l (playhead (playlist_init w)) = []"
  "played (playlist_init w) = played w"
  "pending (playlist_init w) = []"
  "nonzero_entries (playlist_init w)"
  "sound (playlist_init w) r = sound w r"
  by (cases r; simp add: playlist_init_def played_def pending_def nonzero_entries_def)+

text \<open>
  Claim C6.  After any sequence of enqueues, \<open>feed_audio\<close> calls and callbacks that starts
  from the queue left by \<open>playlist_init\<close>, the counter \<open>nsamps\<close> equals the sum of the
  \<open>pl_res\<close> of the entries in the queue and \<open>nent\<close> their number (in the 32-bit arithmetic
  of the counters; as integers while the sum is below \<open>2^31\<close>).  The sounds of the entries
  in the queue are the enqueued sounds, in enqueue order, less a prefix that was removed at
  the head.  When no enqueued sound is empty, the sample positions written so far followed
  by those still held in the queue are the samples of the enqueued sounds in enqueue order:
  nothing is played out of order, twice, or skipped.
\<close>

theorem queue_invariant:
  "run_ops ops (playlist_init w0) = Inr w \<longrightarrow>
     nsamps (playhead w) = sum_list (map pl_res (l (playhead w))) \<and>
     nent (playhead w) = of_nat (length (l (playhead w))) \<and>
     (sum_list (map (unat \<circ> pl_res) (l (playhead w))) < 2 ^ 31 \<longrightarrow>
        sint (nsamps (playhead w)) = int (sum_list (map (unat \<circ> pl_res) (l (playhead w))))) \<and>
     (\<exists>removed. enqueued ops = removed @ map pl_snd (l (playhead w))) \<and>
     ((\<forall>s \<in> set (enqueued ops). len (sound w0 s) \<noteq> 0) \<longrightarrow>
        played w @ pending w = played w0 @ concat (map (sound_refs w0) (enqueued ops)))"
proof (intro impI conjI)
  assume run: "run_ops ops (playlist_init w0) = Inr w"
  from run_ops_counters [OF playlist_init_counters run]
  show c1: "nsamps (playhead w) = sum_list (map pl_res (l (playhead w)))"
    and "nent (playhead w) = of_nat (length (l (playhead w)))"
    by (simp_all add: counters_ok_def)
  {
    assume "sum_list (map (unat \<circ> pl_res) (l (playhead w))) < 2 ^ 31"
    from sint_of_nat_small [OF this] c1
    show "sint (nsamps (playhead w)) = int (sum_list (map (unat \<circ> pl_res) (l (playhead w))))"
      by (simp add: word_sum_unat)
  }
  from run_ops_removed [OF run]
  show "\<exists>removed. enqueued ops = removed @ map pl_snd (l (playhead w))"
    by (simp add: playlist_init_facts)
  {
    assume nz: "\<forall>s \<in> set (enqueued ops). len (sound w0 s) \<noteq> 0"
    have refs: "sound_refs (playlist_init w0) = sound_refs w0"
      by (rule sound_refs_cong) (simp add: playlist_init_facts)
    from nz have "\<forall>s \<in> set (enqueued ops). len (sound (playlist_init w0) s) \<noteq> 0"
      by (simp add: playlist_init_facts)
    from run_ops_timeline [OF run playlist_init_facts(4) this]
    show "played w @ pending w = played w0 @ concat (map (sound_refs w0) (enqueued ops))"
      by (simp add: playlist_init_facts refs)
  }
qed

lemmas queue_eval =
  test_world_def playlist_init_def enqueue_sound_def pl_alloc_def playlist_enqueue_def
  feed_audio_def write_fd_def advance_head_def remove_head_def pl_free_def next_write_def
  raw_entry_def Let_def

theorem queue_invariant_witness:
  "\<exists>w. run_ops [Enqueue Dit, Enqueue Dah, Feed_audio, Enqueue InChar] (playlist_init test_world) = Inr w \<and>
     map pl_snd (l (playhead w)) = [Dah, InChar] \<and>
     map pl_res (l (playhead w)) = [3, 2] \<and>
     nsamps (playhead w) = sum_list (map pl_res (l (playhead w))) \<and>
     nent (playhead w) = of_nat (length (l (playhead w))) \<and>
     sum_list (map (unat \<circ> pl_res) (l (playhead w))) < 2 ^ 31 \<and>
     sint (nsamps (playhead w)) = int (sum_list (map (unat \<circ> pl_res) (l (playhead w)))) \<and>
     (\<exists>removed. enqueued [Enqueue Dit, Enqueue Dah, Feed_audio, Enqueue InChar] =
        removed @ map pl_snd (l (playhead w))) \<and>
     len (sound test_world Dit) \<noteq> 0 \<and> len (sound test_world Dah) \<noteq> 0 \<and>
     len (sound test_world InChar) \<noteq> 0 \<and>
     played w @ pending w =
       played test_world @
       concat (map (sound_refs test_world) (enqueued [Enqueue Dit, Enqueue Dah, Feed_audio, Enqueue InChar]))"
proof -
  let ?ops = "[Enqueue Dit, Enqueue Dah, Feed_audio, Enqueue InChar]"
  have "\<exists>w. run_ops ?ops (playlist_init test_world) = Inr w \<and>
     map pl_snd (l (playhead w)) = [Dah, InChar] \<and> map pl_res (l (playhead w)) = [3, 2]"
    by (simp add: queue_eval)
  then obtain w where run: "run_ops ?ops (playlist_init test_world) = Inr w"
    and q1: "map pl_snd (l (playhead w)) = [Dah, InChar]"
    and q2: "map pl_res (l (playhead w)) = [3, 2]"
    by (elim exE conjE)
  have small: "sum_list (map (unat \<circ> pl_res) (l (playhead w))) < 2 ^ 31"
    using q2 by (simp flip: map_map)
  have nz1: "len (sound test_world Dit) \<noteq> 0"
    and nz2: "len (sound test_world Dah) \<noteq> 0"
    and nz3: "len (sound test_world InChar) \<noteq> 0"
    by (simp_all add: test_world_def)
  then have nz': "\<forall>s \<in> set (enqueued ?ops). len (sound test_world s) \<noteq> 0"
    by simp
  note T = queue_invariant [of ?ops test_world w, THEN mp, OF run]
  note 1 = T [THEN conjunct1]
  note 2 = T [THEN conjunct2, THEN conjunct1]
  note 3 = T [THEN conjunct2, THEN conjunct2, THEN conjunct1, THEN mp, OF small]
  note 4 = T [THEN conjunct2, THEN conjunct2, THEN conjunct2, THEN conjunct1]
  note 5 = T [THEN conjunct2, THEN conjunct2, THEN conjunct2, THEN conjunct2, THEN mp, OF nz']
  show ?thesis
    by (intro exI [of _ w] conjI) (rule run q1 q2 1 2 3 4 5 small nz1 nz2 nz3)+
qed

section \<open>Underrun\<close>

lemma feed_audio_empty:
  "l (playhead w) = [] \<Longrightarrow>
   feed_audio None w =
     Inr (if sp_blocksize (pars w) = 0 then w
          else w\<lparr>audio_out := audio_out w @ [Quiet (unat (sp_blocksize (pars w)))]\<rparr>)"
  by (simp add: feed_audio_def write_fd_def)

lemma mp_frames_empty:
  "l (playhead w) = [] \<Longrightarrow>
   mp_frames n w = Inr (replicate (2 * n) 0, w\<lparr>audio_out := audio_out w @ replicate n (Quiet 1)\<rparr>)"
proof (induction n arbitrary: w)
  case 0
  then show ?case by simp
next
  case (Suc n)
  let ?w1 = "w\<lparr>audio_out := audio_out w @ [Quiet 1]\<rparr>"
  from Suc.prems have "l (playhead ?w1) = []" by simp
  from Suc.IH [OF this] Suc.prems show ?case
    by (simp add: replicate_app_Cons_same)
qed

lemma played_quiet [simp]:
  "played (w\<lparr>audio_out := audio_out w @ replicate n (Quiet k)\<rparr>) = played w"
  by (induction n) (simp_all add: played_def)

lemma played_quiet1 [simp]:
  "played (w\<lparr>audio_out := audio_out w @ [Quiet k]\<rparr>) = played w"
  by (simp add: played_def)

lemma apply_consume_empty:
  assumes "l (playhead w) = []" "is_consume x"
  shows "\<exists>w'. apply_op x w = Inr w' \<and> playhead w' = playhead w \<and> played w' = played w"
proof (cases x)
  case (Enqueue s)
  with assms show ?thesis by simp
next
  case Feed_audio
  with assms show ?thesis
    by (simp add: feed_audio_empty del: feed_loop.simps)
next
  case (Callback n)
  with assms show ?thesis
    by (simp add: mp_callback_def mp_frames_empty)
qed

lemma run_consume_empty:
  "l (playhead w) = [] \<Longrightarrow> list_all is_consume ops \<Longrightarrow>
   \<exists>w'. run_ops ops w = Inr w' \<and> playhead w' = playhead w \<and> played w' = played w"
proof (induction ops arbitrary: w)
  case Nil
  then show ?case by simp
next
  case (Cons x xs)
  from Cons.prems have x: "is_consume x" and xs: "list_all is_consume xs" by simp_all
  from apply_consume_empty [OF Cons.prems(1) x] obtain w1 where
    w1: "apply_op x w = Inr w1" "playhead w1 = playhead w" "played w1 = played w"
    by blast
  then have "l (playhead w1) = []" using Cons.prems(1) by simp
  from Cons.IH [OF this xs] w1 show ?case by auto
qed

lemma quiet_data:
  "chunk_data (w\<lparr>audio_out := x\<rparr>) (Quiet n) = take n (buf (quietBlock w))"
  by (simp add: chunk_data_def)

text \<open>
  Claim C7.  On an empty queue \<open>feed_audio\<close> and \<open>mp_callback\<close> return without error for any
  block size and frame count, write nothing from the queue, and leave the queue with its
  counters as it was; \<open>feed_audio\<close> writes the quiet block, which is zeros when
  \<open>build_quiet\<close> made it, and the callback fills its buffer with zeros.  The same holds for
  any number of such calls in a row.
\<close>

theorem empty_queue_underrun:
  fixes w :: "8 word world" and v :: "real world"
  shows
  "(l (playhead w) = [] \<longrightarrow>
      (\<exists>w'. feed_audio None w = Inr w' \<and> playhead w' = playhead w \<and> played w' = played w \<and>
         (quietBlock w = build_quiet q (pars w) \<longrightarrow>
            concat (map (chunk_data w') (drop (length (audio_out w)) (audio_out w')))
              = replicate (unat (sp_blocksize (pars w))) 0)) \<and>
      (\<forall>ops. list_all is_consume ops \<longrightarrow>
         (\<exists>w'. run_ops ops w = Inr w' \<and> playhead w' = playhead w \<and> played w' = played w))) \<and>
   (l (playhead v) = [] \<longrightarrow>
      (\<exists>v'. mp_callback n v = Inr (replicate (2 * unat n) 0, v') \<and>
         playhead v' = playhead v \<and> played v' = played v) \<and>
      (\<forall>ops. list_all is_consume ops \<longrightarrow>
         (\<exists>v'. run_ops ops v = Inr v' \<and> playhead v' = playhead v \<and> played v' = played v)))"
proof (intro conjI impI allI)
  assume e: "l (playhead w) = []"
  show "\<exists>w'. feed_audio None w = Inr w' \<and> playhead w' = playhead w \<and> played w' = played w \<and>
         (quietBlock w = build_quiet q (pars w) \<longrightarrow>
            concat (map (chunk_data w') (drop (length (audio_out w)) (audio_out w')))
              = replicate (unat (sp_blocksize (pars w))) 0)"
    by (simp add: feed_audio_empty [OF e] quiet_data build_quiet_def build_silence_def
        unat_eq_zero del: feed_loop.simps)
next
  fix ops
  assume "l (playhead w) = []" "list_all is_consume ops"
  then show "\<exists>w'. run_ops ops w = Inr w' \<and> playhead w' = playhead w \<and> played w' = played w"
    by (rule run_consume_empty)
next
  assume e: "l (playhead v) = []"
  show "\<exists>v'. mp_callback n v = Inr (replicate (2 * unat n) 0, v') \<and>
         playhead v' = playhead v \<and> played v' = played v"
    by (simp add: mp_callback_def mp_frames_empty [OF e])
next
  fix ops
  assume "l (playhead v) = []" "list_all is_consume ops"
  then show "\<exists>v'. run_ops ops v = Inr v' \<and> playhead v' = playhead v \<and> played v' = played v"
    by (rule run_consume_empty)
qed

theorem empty_queue_underrun_witness:
  "l (playhead test_world) = [] \<and>
   quietBlock test_world = build_quiet \<lparr>len = 0, buf = []\<rparr> (pars test_world) \<and>
   (\<exists>w'. feed_audio None test_world = Inr w' \<and> playhead w' = playhead test_world \<and>
      played w' = played test_world \<and>
      concat (map (chunk_data w') (drop (length (audio_out test_world)) (audio_out w')))
        = replicate (unat (sp_blocksize (pars test_world))) 0) \<and>
   list_all is_consume [Feed_audio, Callback 5, Feed_audio] \<and>
   (\<exists>w'. run_ops [Feed_audio, Callback 5, Feed_audio] test_world = Inr w' \<and>
      playhead w' = playhead test_world \<and> played w' = played test_world) \<and>
   l (playhead test_world_pa) = [] \<and>
   (\<exists>v'. mp_callback 2 test_world_pa = Inr (replicate (2 * unat (2 :: u_int)) 0, v') \<and>
      playhead v' = playhead test_world_pa \<and> played v' = played test_world_pa) \<and>
   (\<exists>v'. run_ops [Feed_audio, Callback 5, Feed_audio] test_world_pa = Inr v' \<and>
      playhead v' = playhead test_world_pa \<and> played v' = played test_world_pa)"
proof -
  let ?q = "\<lparr>len = 0, buf = []\<rparr> :: 8 word a_sound"
  let ?ops = "[Feed_audio, Callback 5, Feed_audio]"
  have e: "l (playhead test_world) = []"
    by (simp add: test_world_def)
  have qb: "quietBlock test_world = build_quiet ?q (pars test_world)"
  proof -
    have "replicate 3 (0 :: 8 word) = [0, 0, 0]"
      by (simp add: numeral_3_eq_3)
    then show ?thesis
      by (simp add: test_world_def build_quiet_def build_silence_def)
  qed
  have c: "list_all is_consume ?ops"
    by simp
  have e': "l (playhead test_world_pa) = []"
    by (simp add: test_world_pa_def)
  note T = empty_queue_underrun [of test_world ?q test_world_pa 2]
  note W = T [THEN conjunct1, THEN mp, OF e]
  note V = T [THEN conjunct2, THEN mp, OF e']
  from W [THEN conjunct1] qb
  have 1: "\<exists>w'. feed_audio None test_world = Inr w' \<and> playhead w' = playhead test_world \<and>
      played w' = played test_world \<and>
      concat (map (chunk_data w') (drop (length (audio_out test_world)) (audio_out w')))
        = replicate (unat (sp_blocksize (pars test_world))) 0"
    by auto
  note 2 = W [THEN conjunct2, THEN spec, THEN mp, OF c]
  note 3 = V [THEN conjunct1]
  note 4 = V [THEN conjunct2, THEN spec, THEN mp, OF c]
  show ?thesis
    by (intro conjI) (rule e qb 1 c 2 e' 3 4)+
qed

section \<open>Silence buffers: properties\<close>

lemma pcm16_zero: "set bs \<subseteq> {0} \<Longrightarrow> set (pcm16 bs) \<subseteq> {0}"
  by (induction bs rule: pcm16.induct) (auto simp: word_cat_eq)

lemma pcm16_length: "length (pcm16 bs) = length bs div 2"
  by (induction bs rule: pcm16.induct) auto

lemma build_silence_zero:
  "len (build_silence sd) = len sd \<and>
   length (buf (build_silence sd)) = unat (len sd) \<and>
   set (buf (build_silence sd)) \<subseteq> {0} \<and>
   length (pcm_samples 8 (buf (build_silence sd))) = unat (len sd) \<and>
   length (pcm_samples 16 (buf (build_silence sd))) = unat (len sd) div 2 \<and>
   set (pcm_samples precision (buf (build_silence sd))) \<subseteq> {0}"
proof -
  have z: "set (buf (build_silence sd)) \<subseteq> {0}"
    by (auto simp: build_silence_def)
  from pcm16_zero [OF z] z have s: "set (pcm_samples precision (buf (build_silence sd))) \<subseteq> {0}"
    by (auto simp: pcm_samples_def)
  have n: "length (buf (build_silence sd)) = unat (len sd)" "len (build_silence sd) = len sd"
    by (simp_all add: build_silence_def)
  have "length (pcm_samples 8 (buf (build_silence sd))) = unat (len sd)"
    "length (pcm_samples 16 (buf (build_silence sd))) = unat (len sd) div 2"
    by (simp_all add: pcm_samples_def pcm16_length n)
  with z s n show ?thesis by simp
qed

lemma build_quiet_zero:
  "len (build_quiet sd ps) = sp_blocksize ps \<and>
   buf (build_quiet sd ps) = replicate (unat (sp_blocksize ps)) 0"
  by (simp add: build_quiet_def build_silence_def)

lemma build_silence_pa_length:
  "length (buf (build_silence_pa sd)) = unat (len sd) div 4 \<and> len (build_silence_pa sd) = len sd"
  by (simp add: build_silence_pa_def floats_in_def sizeof_float_def)

text \<open>
  Claim C8 fails in the PortAudio variant: for a silence sound of recorded length 44100
  samples \<open>build_silence\<close> makes a buffer of 11025 samples, and the callback that plays an
  inter-character gap of recorded length 2 reads outside its buffer at the first sample.
  (In \<^verbatim>\<open>morseplayer.c\<close> the claim holds: \<open>build_silence_zero\<close>, \<open>build_quiet_zero\<close>.)
\<close>

theorem build_silence_pa_short_buffer:
  "len (build_silence_pa \<lparr>len = 44100, buf = []\<rparr>) = 44100 \<and>
   length (buf (build_silence_pa \<lparr>len = 44100, buf = []\<rparr>)) = 11025 \<and>
   inChar test_world_pa = build_silence_pa \<lparr>len = 2, buf = []\<rparr> \<and>
   run_ops [Enqueue InChar, Callback 1] test_world_pa = Inl (Bad_pointer InChar 0)"
  by (simp add: build_silence_pa_def floats_in_def sizeof_float_def test_world_pa_def
      mp_callback_def enqueue_sound_def pl_alloc_def playlist_enqueue_def raw_entry_def Let_def)

section \<open>Main loops: properties\<close>

lemma grows_refl: "grows w w"
  by (simp add: grows_def)

lemma grows_trans: "grows w w1 \<Longrightarrow> grows w1 w2 \<Longrightarrow> grows w w2"
  by (auto simp: grows_def)

lemma grows_enqueue: "grows w (enqueue_sound s n w)"
  by (simp add: grows_def enqueue_sound_queue)

lemma grows_seenspace: "grows w (set_seenspace v w)"
  by (simp add: grows_def set_seenspace_def)

lemma play_string_grows: "play_string m w = Inr w' \<Longrightarrow> grows w w'"
proof (induction m arbitrary: w)
  case Nil
  then show ?case by (auto simp: grows_enqueue)
next
  case (Cons p ps)
  then show ?case
    by (auto split: if_splits intro: grows_trans [OF grows_enqueue])
qed

lemma convert_scan_grows: "convert_scan mc c w = Inr w' \<Longrightarrow> grows w w'"
  by (induction mc) (auto split: if_splits simp: grows_refl play_string_grows)

lemma fetch_byte_grows: "fetch_byte c w = Inr w' \<Longrightarrow> grows w w'"
  by (auto simp: fetch_byte_def convert_char_def grows_refl
      split: if_splits sum.splits
      intro: grows_trans [OF convert_scan_grows grows_seenspace]
             grows_trans [OF grows_enqueue grows_seenspace])

lemma fetch_loop_grows: "fetch_loop cs w = Inr w' \<Longrightarrow> grows w w'"
proof (induction cs arbitrary: w)
  case Nil
  then show ?case by (simp add: grows_refl)
next
  case (Cons c cs)
  then show ?case
    by (auto split: sum.splits intro: grows_trans [OF fetch_byte_grows])
qed

lemma fetch_chars_grows: "fetch_chars rr w = Inr (r, w') \<Longrightarrow> grows w w'"
  by (cases rr) (auto split: if_splits sum.splits simp: grows_refl fetch_loop_grows)

lemma grows_timeline:
  "grows w w' \<Longrightarrow> played w' = played w \<and> (\<exists>new. pending w' = pending w @ new)"
  by (auto simp: grows_def played_def pending_def)

lemma feed_loop_drained: "feed_loop k res w = Inr w' \<Longrightarrow> drained w' = drained w"
proof (induction k res w rule: feed_loop.induct)
  case (1 k res w)
  show ?case
  proof (cases "res = 0")
    case True
    with "1.prems" show ?thesis by simp
  next
    case nz: False
    show ?thesis
    proof (cases "l (playhead w)")
      case Nil
      with nz "1.prems" show ?thesis
        by (auto dest!: write_fd_Inr)
    next
      case (Cons e es)
      show ?thesis
      proof (cases "pl_res e > res")
        case True
        with nz Cons "1.prems" show ?thesis
          by (auto simp: advance_head_def dest!: write_fd_Inr split: sum.splits)
      next
        case False
        from nz Cons False "1.prems" obtain w1 where
          w1: "write_fd k (Queued (pl_snd e) (pl_ptr e) (unat (pl_res e))) w = Inr w1"
          and run: "feed_loop (next_write k) (res - pl_res e) (remove_head w1) = Inr w'"
          by (auto split: sum.splits)
        have "drained (remove_head w1) = drained w"
          using Cons write_fd_Inr [OF w1]
          by (simp add: remove_head_def pl_free_def)
        with "1.IH" [OF nz Cons False w1 run] show ?thesis by simp
      qed
    qed
  qed
qed

lemma fetch_chars_eof:
  "fetch_chars rr w = Inr (r, w') \<Longrightarrow> (r \<noteq> 0) = (rr = Read_bytes [])"
  by (cases rr) (auto split: if_splits sum.splits)

lemma input_turn:
  assumes "(if want_input iseof w \<and> pe_in ev then
              (case fetch_chars (pe_read ev) w of
                 Inl x \<Rightarrow> Inl x
               | Inr (r, w1) \<Rightarrow> Inr (iseof \<or> r \<noteq> 0, w1))
            else Inr (iseof, w)) = Inr (iseof1, w1)"
  shows "grows w w1 \<and> (iseof \<longrightarrow> iseof1 \<and> w1 = w) \<and>
         (iseof1 \<and> \<not> iseof \<longrightarrow> pe_in ev \<and> pe_read ev = Read_bytes [])"
proof (cases "want_input iseof w \<and> pe_in ev")
  case True
  with assms obtain r where f: "fetch_chars (pe_read ev) w = Inr (r, w1)"
    and i: "iseof1 = (iseof \<or> r \<noteq> 0)"
    by (auto split: sum.splits)
  from True have "\<not> iseof" by (simp add: want_input_def)
  with fetch_chars_grows [OF f] fetch_chars_eof [OF f] i True show ?thesis
    by auto
next
  case False
  with assms show ?thesis by (auto simp: grows_refl)
qed

lemma feed_audio_facts:
  assumes "feed_audio k w = Inr w'"
  shows "played w' @ pending w' = played w @ pending w" "drained w' = drained w"
  using assms feed_loop_timeline feed_loop_drained
  by (auto simp: feed_audio_def simp del: feed_loop.simps)

lemma pending_Nil: "l (playhead w) = [] \<Longrightarrow> pending w = []"
  by (simp add: pending_def)

lemma main_for_exit:
  "main_for evs iseof w = Returned w' \<Longrightarrow>
     l (playhead w') = [] \<and> drained w' = Suc (drained w) \<and>
     (\<exists>new. played w' = played w @ pending w @ new) \<and>
     (iseof \<longrightarrow> played w' = played w @ pending w) \<and>
     (\<not> iseof \<longrightarrow> (\<exists>ev \<in> set evs. pe_in ev \<and> pe_read ev = Read_bytes []))"
proof (induction evs arbitrary: iseof w)
  case Nil
  then show ?case by simp
next
  case (Cons ev evs)
  let ?input = "(if want_input iseof w \<and> pe_in ev then
              (case fetch_chars (pe_read ev) w of
                 Inl x \<Rightarrow> Inl x
               | Inr (r, w1) \<Rightarrow> Inr (iseof \<or> r \<noteq> 0, w1))
            else Inr (iseof, w))"
  from Cons.prems have nf: "\<not> pe_fail ev"
    by (auto split: if_splits)
  from Cons.prems nf obtain iseof1 w1 where inp: "?input = Inr (iseof1, w1)"
    by (cases ?input) (auto simp del: fetch_chars.simps)
  from input_turn [OF inp] have g: "grows w w1"
    and keep: "iseof \<longrightarrow> iseof1 \<and> w1 = w"
    and eof: "iseof1 \<and> \<not> iseof \<longrightarrow> pe_in ev \<and> pe_read ev = Read_bytes []"
    by blast+
  from grows_timeline [OF g] obtain n1 where
    p1: "played w1 = played w" and q1: "pending w1 = pending w @ n1"
    by blast
  from g have d1: "drained w1 = drained w" by (simp add: grows_def)
  from keep q1 have n1: "iseof \<longrightarrow> n1 = []" by auto
  have rec: "l (playhead w') = [] \<and> drained w' = Suc (drained w) \<and>
     (\<exists>new. played w' = played w @ pending w @ new) \<and>
     (iseof \<longrightarrow> played w' = played w @ pending w) \<and>
     (\<not> iseof \<longrightarrow> (\<exists>x \<in> set (ev # evs). pe_in x \<and> pe_read x = Read_bytes []))"
    if run: "main_for evs iseof1 w2 = Returned w'"
      and t: "played w2 @ pending w2 = played w @ pending w @ n1"
      and d: "drained w2 = drained w" for w2
  proof -
    from Cons.IH [OF run] obtain new where
      a: "l (playhead w') = []" "drained w' = Suc (drained w2)"
      and b: "played w' = played w2 @ pending w2 @ new"
      and c: "iseof1 \<longrightarrow> played w' = played w2 @ pending w2"
      and e: "\<not> iseof1 \<longrightarrow> (\<exists>x \<in> set evs. pe_in x \<and> pe_read x = Read_bytes [])"
      by blast
    from b have "played w' = (played w2 @ pending w2) @ new" by simp
    with t have 1: "played w' = played w @ pending w @ (n1 @ new)" by simp
    from c t n1 keep have 2: "iseof \<longrightarrow> played w' = played w @ pending w" by auto
    from e eof have 3: "\<not> iseof \<longrightarrow> (\<exists>x \<in> set (ev # evs). pe_in x \<and> pe_read x = Read_bytes [])"
      by auto
    from a d have 0: "l (playhead w') = []" "drained w' = Suc (drained w)" by simp_all
    from 1 have ex1: "\<exists>new. played w' = played w @ pending w @ new" ..
    show ?thesis by (intro conjI) (rule 0 ex1 2 3)+
  qed
  show ?case
  proof (cases "pe_out ev")
    case False
    with Cons.prems nf inp have "main_for evs iseof1 w1 = Returned w'"
      by (simp del: fetch_chars.simps)
    from rec [OF this] p1 q1 d1 show ?thesis by simp
  next
    case True
    with Cons.prems nf inp obtain w2 where fa: "feed_audio (pe_wfail ev) w1 = Inr w2"
      by (cases "feed_audio (pe_wfail ev) w1") (auto simp del: fetch_chars.simps)
    from feed_audio_facts [OF fa] p1 q1 d1 have
      t2: "played w2 @ pending w2 = played w @ pending w @ n1" and d2: "drained w2 = drained w"
      by simp_all
    show ?thesis
    proof (cases "iseof1 \<and> l (playhead w2) = []")
      case exit: True
      with Cons.prems nf inp True fa have w': "w' = w2\<lparr>drained := Suc (drained w2)\<rparr>"
        by (auto simp: audio_drain_def simp del: fetch_chars.simps split: if_splits)
      from exit have "pending w2 = []" by (simp add: pending_Nil)
      with t2 have pl: "played w2 = played w @ pending w @ n1" by simp
      have pw: "played w' = played w2" by (simp add: w' played_def)
      from exit w' have 0: "l (playhead w') = []" "drained w' = Suc (drained w)"
        using d2 by simp_all
      from pl pw have 1: "\<exists>new. played w' = played w @ pending w @ new" by auto
      from pl pw n1 have 2: "iseof \<longrightarrow> played w' = played w @ pending w" by auto
      from exit eof have 3: "\<not> iseof \<longrightarrow> (\<exists>x \<in> set (ev # evs). pe_in x \<and> pe_read x = Read_bytes [])"
        by auto
      show ?thesis by (intro conjI) (rule 0 1 2 3)+
    next
      case False
      with Cons.prems nf inp True fa have "main_for evs iseof1 w2 = Returned w'"
        by (auto simp del: fetch_chars.simps)
      from rec [OF this t2 d2] show ?thesis .
    qed
  qed
qed

lemma main_loop_drains:
  "main_loop kick_fails evs w = Returned w' \<Longrightarrow>
     l (playhead w') = [] \<and> drained w' = Suc (drained w) \<and>
     (\<exists>new. played w' = played w @ pending w @ new) \<and>
     (\<exists>ev \<in> set evs. pe_in ev \<and> pe_read ev = Read_bytes [])"
proof -
  assume r: "main_loop kick_fails evs w = Returned w'"
  let ?w1 = "w\<lparr>audio_out := audio_out w @ [Quiet (unat (len (quietBlock w)))]\<rparr>"
  from r have "main_for evs False ?w1 = Returned w'"
    by (auto simp: main_loop_def write_fd_def split: if_splits)
  from main_for_exit [OF this] show ?thesis
    by (simp add: played_def pending_def)
qed

lemmas loop_eval =
  main_loop_pa_def main_loop_def ev_input_def ev_output_def want_input_def audio_drain_def
  fetch_byte_def convert_char_def lowered_def isupper_def isspace_def morse_chars_def
  set_seenspace_def played_def

text \<open>
  Claim C2 fails in the PortAudio variant: on the input \<open>e\<close> followed by the end of the
  input its main loop returns with the dit and the gap still in the queue, nothing played
  and no drain.  (In \<^verbatim>\<open>morseplayer.c\<close> the claim holds: \<open>main_for_exit\<close>,
  \<open>main_loop_drains\<close>, and \<open>main_loop_plays_e\<close> on the same input.)
\<close>

theorem main_loop_pa_leaves_queue:
  "(case main_loop_pa [ev_input ''e'', ev_input []] test_world_pa of
      Returned w \<Rightarrow>
        map pl_snd (l (playhead w)) = [Dit, InChar] \<and> nsamps (playhead w) = 4 \<and>
        played w = [] \<and> drained w = 0
    | Died x \<Rightarrow> False
    | Polling b w \<Rightarrow> False)"
  by (simp add: loop_eval test_world_pa_def test_world_def build_silence_pa_def
      enqueue_sound_def pl_alloc_def playlist_enqueue_def raw_entry_def Let_def)

lemma main_loop_plays_e:
  "(case main_loop False [ev_input ''e'', ev_input [], ev_output, ev_output] test_world of
      Returned w \<Rightarrow>
        l (playhead w) = [] \<and> nsamps (playhead w) = 0 \<and>
        played w = [(Dit, 0), (Dit, 1), (InChar, 0), (InChar, 1)] \<and> drained w = 1
    | Died x \<Rightarrow> False
    | Polling b w \<Rightarrow> False)"
  by (simp add: loop_eval queue_eval upt_rec)

section \<open>Floating-point rounding: error bounds\<close>

lemma binade_bounds:
  assumes "x \<noteq> 0"
  shows "2 powi binade x \<le> \<bar>x\<bar> \<and> \<bar>x\<bar> < 2 powi (binade x + 1)"
proof (cases "1 \<le> \<bar>x\<bar>")
  case True
  let ?n = "\<lfloor>\<bar>x\<bar>\<rfloor>"
  from True have n: "0 < ?n" by linarith
  from bitlen_bounds [OF n] have lo: "2 ^ nat (bitlen ?n - 1) \<le> ?n" and hi: "?n < 2 ^ nat (bitlen ?n)"
    by simp_all
  from n have b1: "1 \<le> bitlen ?n"
    by (simp add: bitlen_alt_def)
  have e: "binade x = bitlen ?n - 1" using True by (simp add: binade_def)
  have "(2::real) powi (bitlen ?n - 1) = 2 ^ nat (bitlen ?n - 1)"
    using b1 by (simp add: power_int_nonneg_exp)
  also have "\<dots> = of_int (2 ^ nat (bitlen ?n - 1))" by simp
  also have "\<dots> \<le> of_int ?n" using lo by (simp only: of_int_le_iff)
  also have "\<dots> \<le> \<bar>x\<bar>" by simp
  finally have 1: "2 powi binade x \<le> \<bar>x\<bar>" by (simp add: e)
  have "?n + 1 \<le> 2 ^ nat (bitlen ?n)" using hi by simp
  then have "of_int (?n + 1) \<le> (of_int (2 ^ nat (bitlen ?n)) :: real)"
    by (simp only: of_int_le_iff)
  then have A: "real_of_int ?n + 1 \<le> 2 ^ nat (bitlen ?n)" by simp
  have B: "\<bar>x\<bar> < real_of_int ?n + 1" by linarith
  from A B have "\<bar>x\<bar> < 2 ^ nat (bitlen ?n)" by linarith
  also have "\<dots> = (2::real) powi (bitlen ?n)"
    using b1 by (simp add: power_int_nonneg_exp)
  finally have 2: "\<bar>x\<bar> < 2 powi (binade x + 1)" by (simp add: e)
  from 1 2 show ?thesis ..
next
  case False
  let ?y = "1 / \<bar>x\<bar>"
  let ?n = "\<lceil>?y\<rceil> - 1"
  from False assms have x01: "0 < \<bar>x\<bar>" "\<bar>x\<bar> < 1" by simp_all
  then have y1: "1 < ?y" by simp
  then have n: "0 < ?n" by linarith
  from bitlen_bounds [OF n] have lo: "2 ^ nat (bitlen ?n - 1) \<le> ?n" and hi: "?n < 2 ^ nat (bitlen ?n)"
    by simp_all
  from n have b1: "1 \<le> bitlen ?n"
    by (simp add: bitlen_alt_def)
  have e: "binade x = - bitlen ?n" using False by (simp add: binade_def)
  have "?y \<le> of_int (?n + 1)" by simp
  also have "\<dots> \<le> of_int (2 ^ nat (bitlen ?n))"
    using hi by (simp only: of_int_le_iff)
  also have "\<dots> = (2::real) powi (bitlen ?n)"
    using b1 by (simp add: power_int_nonneg_exp)
  finally have "1 / \<bar>x\<bar> \<le> 2 powi (bitlen ?n)" .
  then have "1 \<le> 2 powi (bitlen ?n) * \<bar>x\<bar>"
    using x01 by (simp add: field_simps)
  then have "1 / 2 powi (bitlen ?n) \<le> \<bar>x\<bar>"
    by (simp add: field_simps)
  then have 1: "2 powi binade x \<le> \<bar>x\<bar>"
    by (simp add: e power_int_minus_divide)
  have "(2::real) powi (bitlen ?n - 1) = of_int (2 ^ nat (bitlen ?n - 1))"
    using b1 by (simp add: power_int_nonneg_exp)
  also have "\<dots> \<le> of_int ?n" using lo by (simp only: of_int_le_iff)
  also have "\<dots> < ?y" by linarith
  finally have "2 powi (bitlen ?n - 1) < 1 / \<bar>x\<bar>" .
  then have "\<bar>x\<bar> * 2 powi (bitlen ?n - 1) < 1"
    using x01 by (simp add: field_simps)
  then have "\<bar>x\<bar> < 1 / 2 powi (bitlen ?n - 1)"
    by (simp add: field_simps)
  also have "\<dots> = 2 powi (- (bitlen ?n - 1))"
    by (simp only: power_int_minus_divide)
  finally have 2: "\<bar>x\<bar> < 2 powi (binade x + 1)" by (simp add: e)
  from 1 2 show ?thesis ..
qed

lemma binade_unique:
  assumes "2 powi e \<le> \<bar>x\<bar>" "\<bar>x\<bar> < 2 powi (e + 1)"
  shows "binade x = e"
proof -
  have "(0::real) < 2 powi e" by simp
  with assms(1) have "0 < \<bar>x\<bar>" by linarith
  then have nz: "x \<noteq> 0" by simp
  from binade_bounds [OF nz] have b: "2 powi binade x \<le> \<bar>x\<bar>" "\<bar>x\<bar> < 2 powi (binade x + 1)"
    by simp_all
  have mono: "i < j" if "(2::real) powi i < 2 powi j" for i j :: int
  proof (rule ccontr)
    assume "\<not> i < j"
    then have "j \<le> i" by simp
    from power_int_increasing [OF this, of "2::real"] that show False by simp
  qed
  from b(1) assms(2) have "(2::real) powi binade x < 2 powi (e + 1)" by simp
  then have 1: "binade x < e + 1" by (rule mono)
  from assms(1) b(2) have "(2::real) powi e < 2 powi (binade x + 1)" by simp
  then have 2: "e < binade x + 1" by (rule mono)
  from 1 2 show ?thesis by simp
qed

lemma rne_error: "\<bar>of_int (rne y) - y\<bar> \<le> 1 / 2"
  unfolding rne_def Let_def by (auto; linarith)

lemma fl_eval:
  assumes "2 powi e \<le> \<bar>x\<bar>" "\<bar>x\<bar> < 2 powi (e + 1)"
  shows "fl p x = of_int (rne (x * 2 powi (int p - 1 - e))) * 2 powi (e - (int p - 1))"
proof -
  have "(0::real) < 2 powi e" by simp
  with assms(1) have "0 < \<bar>x\<bar>" by linarith
  then have nz: "x \<noteq> 0" by simp
  with binade_unique [OF assms] show ?thesis by (simp add: fl_def)
qed

lemma fl_error: "\<bar>fl p x - x\<bar> \<le> \<bar>x\<bar> * 2 powi (- int p)"
proof (cases "x = 0")
  case True
  then show ?thesis by (simp add: fl_def)
next
  case False
  define e where "e = binade x"
  define y where "y = x * 2 powi (int p - 1 - e)"
  define t :: real where "t = 2 powi (e - (int p - 1))"
  have pos: "0 < t" by (simp add: t_def)
  have "(2::real) powi ((int p - 1 - e) + (e - (int p - 1))) = 2 powi (int p - 1 - e) * t"
    unfolding t_def by (rule power_int_add) simp
  then have "2 powi (int p - 1 - e) * t = 1" by simp
  then have yt: "y * t = x" by (simp add: y_def)
  have "fl p x = of_int (rne y) * t"
    using False by (simp add: fl_def y_def t_def e_def)
  then have "fl p x - x = (of_int (rne y) - y) * t"
    using yt by (simp add: algebra_simps)
  then have "\<bar>fl p x - x\<bar> = \<bar>of_int (rne y) - y\<bar> * t"
    using pos by (simp add: abs_mult)
  also have "\<dots> \<le> 1 / 2 * t"
    using rne_error [of y] pos by (simp add: mult_right_mono)
  also have "\<dots> = 2 powi e * 2 powi (- int p)"
  proof -
    have eq: "e - (int p - 1) = (e + (- int p)) + 1" by simp
    have "t = 2 powi ((e + (- int p)) + 1)" by (simp only: t_def eq)
    also have "\<dots> = 2 powi (e + (- int p)) * 2"
      by (rule power_int_add_1) simp
    also have "2 powi (e + (- int p)) = (2::real) powi e * 2 powi (- int p)"
      by (rule power_int_add) simp
    finally show ?thesis by simp
  qed
  also have "\<dots> \<le> \<bar>x\<bar> * 2 powi (- int p)"
    using binade_bounds [OF False] by (simp add: e_def mult_right_mono)
  finally show ?thesis .
qed

lemma rne_of_int [simp]: "rne (of_int n) = n"
  by (simp add: rne_def)

lemma fl_dyadic:
  assumes "\<bar>n\<bar> < 2 ^ p"
  shows "fl p (of_int n * 2 powi k) = of_int n * 2 powi k"
proof (cases "n = 0")
  case True
  then show ?thesis by (simp add: fl_def)
next
  case False
  define x :: real where "x = of_int n * 2 powi k"
  define e where "e = binade x"
  have nz: "x \<noteq> 0" using False by (simp add: x_def)
  from binade_bounds [OF nz] have lo: "2 powi e \<le> \<bar>x\<bar>"
    by (simp add: e_def)
  have "\<bar>x\<bar> = of_int \<bar>n\<bar> * 2 powi k"
    by (simp add: x_def abs_mult)
  also have "\<dots> < 2 ^ p * 2 powi k"
  proof -
    from assms have "(of_int \<bar>n\<bar> :: real) < of_int (2 ^ p)"
      by (simp only: of_int_less_iff)
    then show ?thesis by (simp add: mult_strict_right_mono)
  qed
  also have "\<dots> = 2 powi (int p + k)"
    by (simp add: power_int_add)
  finally have "(2::real) powi e < 2 powi (int p + k)"
    using lo by simp
  then have "e < int p + k"
  proof -
    assume a: "(2::real) powi e < 2 powi (int p + k)"
    show ?thesis
    proof (rule ccontr)
      assume "\<not> e < int p + k"
      then have "int p + k \<le> e" by simp
      from power_int_increasing [OF this, of "2::real"] a show False by simp
    qed
  qed
  then obtain j :: nat where j: "int j = k + int p - 1 - e"
    by (metis add.commute diff_diff_eq2 diff_ge_0_iff_ge nonneg_int_cases zle_diff1_eq)
  have "x * 2 powi (int p - 1 - e) = of_int n * (2 powi k * 2 powi (int p - 1 - e))"
    by (simp add: x_def)
  also have "2 powi k * 2 powi (int p - 1 - e) = (2::real) powi (k + (int p - 1 - e))"
    by (rule power_int_add [symmetric]) simp
  also have "k + (int p - 1 - e) = int j" using j by simp
  finally have "x * 2 powi (int p - 1 - e) = of_int (n * 2 ^ j)"
    by simp
  then have "fl p x = of_int (n * 2 ^ j) * 2 powi (e - (int p - 1))"
    using nz by (simp add: fl_def e_def del: of_int_mult of_int_power)
  also have "\<dots> = of_int n * (2 powi (int j) * 2 powi (e - (int p - 1)))"
    by simp
  also have "2 powi (int j) * 2 powi (e - (int p - 1)) = (2::real) powi (int j + (e - (int p - 1)))"
    by (rule power_int_add [symmetric]) simp
  also have "int j + (e - (int p - 1)) = k" using j by simp
  finally show ?thesis by (simp add: x_def)
qed

lemma fl_int:
  "\<bar>n\<bar> < 2 ^ p \<Longrightarrow> fl p (of_int n) = of_int n"
  using fl_dyadic [of n p 0] by simp

lemma fl_half_int:
  "\<bar>n\<bar> < 2 ^ p \<Longrightarrow> fl p (of_int n / 2) = of_int n / 2"
  using fl_dyadic [of n p "-1"] by (simp add: power_int_minus_divide)

lemma eps24_pos: "0 < eps24" "0 \<le> eps24"
  by (simp_all add: eps24_def)

lemma eps24_small: "1000 * eps24 \<le> 1" "1000 * 1000 * eps24 \<le> 1"
  by (simp_all add: eps24_def)

lemma eps24_bound: "24 \<le> p \<Longrightarrow> 2 powi (- int p) \<le> eps24"
proof -
  assume "24 \<le> p"
  then have "(2::real) powi (- int p) \<le> 2 powi (- 24)"
    by (intro power_int_increasing) simp_all
  then show ?thesis by (simp add: power_int_minus_divide eps24_def)
qed

lemma near_refl: "0 \<le> x \<Longrightarrow> 0 \<le> k \<Longrightarrow> near k x x"
  using eps24_pos by (simp add: near_def)

lemma near_mono: "near k y x \<Longrightarrow> k \<le> k' \<Longrightarrow> 0 \<le> x \<Longrightarrow> near k' y x"
proof -
  assume a: "near k y x" "k \<le> k'" "0 \<le> x"
  then have "k * eps24 \<le> k' * eps24"
    using eps24_pos by (simp add: mult_right_mono)
  then have "k * eps24 * x \<le> k' * eps24 * x"
    using a(3) by (rule mult_right_mono)
  with a(1) show ?thesis by (simp add: near_def)
qed

lemma near_scale: "near k y x \<Longrightarrow> 0 \<le> c \<Longrightarrow> near k (c * y) (c * x)"
proof -
  assume a: "near k y x" "0 \<le> c"
  have "\<bar>c * y - c * x\<bar> = c * \<bar>y - x\<bar>"
    using a(2) by (simp add: abs_mult right_diff_distrib [symmetric])
  also have "\<dots> \<le> c * (k * eps24 * x)"
    using a(1) a(2) unfolding near_def by (rule mult_left_mono)
  also have "\<dots> = k * eps24 * (c * x)" by simp
  finally show ?thesis by (simp only: near_def)
qed

lemma near_abs_le: 
  assumes "near k y x" "0 \<le> x" "0 \<le> k" "k \<le> 1000"
  shows "\<bar>y - x\<bar> \<le> x" "\<bar>y\<bar> \<le> 2 * x" "0 \<le> y"
proof -
  have "k * eps24 \<le> 1000 * eps24"
    using assms(4) eps24_pos by (simp add: mult_right_mono)
  with eps24_small(1) have "k * eps24 \<le> 1" by linarith
  then have "k * eps24 * x \<le> 1 * x"
    using assms(2) by (rule mult_right_mono)
  with assms(1) show 1: "\<bar>y - x\<bar> \<le> x" by (simp add: near_def)
  then show "\<bar>y\<bar> \<le> 2 * x" "0 \<le> y" by linarith+
qed

lemma near_fl:
  assumes "near k y x" "0 \<le> x" "0 \<le> k" "k \<le> 1000" "24 \<le> p"
  shows "near (k + 2) (fl p y) x"
proof -
  from assms have yx: "\<bar>y - x\<bar> \<le> k * eps24 * x" by (simp add: near_def)
  from near_abs_le [OF assms(1-4)] have y2: "\<bar>y\<bar> \<le> 2 * x" by simp
  have "\<bar>fl p y - y\<bar> \<le> \<bar>y\<bar> * 2 powi (- int p)" by (rule fl_error)
  also have "\<dots> \<le> \<bar>y\<bar> * eps24"
    using eps24_bound [OF assms(5)] by (intro mult_left_mono) simp_all
  also have "\<dots> \<le> (2 * x) * eps24"
    using y2 eps24_pos(2) by (rule mult_right_mono)
  finally have "\<bar>fl p y - y\<bar> \<le> 2 * eps24 * x" by (simp add: ac_simps)
  with yx have "\<bar>fl p y - x\<bar> \<le> k * eps24 * x + 2 * eps24 * x" by linarith
  also have "\<dots> = (k + 2) * eps24 * x" by (simp add: algebra_simps)
  finally show ?thesis by (simp only: near_def)
qed

lemma near_mult:
  assumes "near a y1 x1" "near b y2 x2" "0 \<le> x1" "0 \<le> x2" "0 \<le> a" "0 \<le> b" "a \<le> 1000" "b \<le> 1000"
  shows "near (a + b + 1) (y1 * y2) (x1 * x2)"
proof -
  from assms have d1: "\<bar>y1 - x1\<bar> \<le> a * eps24 * x1" and d2: "\<bar>y2 - x2\<bar> \<le> b * eps24 * x2"
    by (simp_all add: near_def)
  define A B C where "A = (y1 - x1) * x2" and "B = x1 * (y2 - x2)" and "C = (y1 - x1) * (y2 - x2)"
  have split: "y1 * y2 - x1 * x2 = A + B + C"
    by (simp add: A_def B_def C_def algebra_simps)
  have aA: "\<bar>A\<bar> = \<bar>y1 - x1\<bar> * x2" using assms(4) by (simp add: A_def abs_mult)
  have aB: "\<bar>B\<bar> = x1 * \<bar>y2 - x2\<bar>" using assms(3) by (simp add: B_def abs_mult)
  have aC: "\<bar>C\<bar> = \<bar>y1 - x1\<bar> * \<bar>y2 - x2\<bar>" by (simp add: C_def abs_mult)
  have 1: "\<bar>A\<bar> \<le> (a * eps24 * x1) * x2"
    unfolding aA using d1 assms(4) by (rule mult_right_mono)
  have 2: "\<bar>B\<bar> \<le> x1 * (b * eps24 * x2)"
    unfolding aB using d2 assms(3) by (rule mult_left_mono)
  have nn: "0 \<le> a * eps24 * x1"
    using assms(3,5) eps24_pos(2) by simp
  have 3: "\<bar>C\<bar> \<le> (a * eps24 * x1) * (b * eps24 * x2)"
    unfolding aC using d1 d2 nn by (intro mult_mono) simp_all
  have ab: "a * b * eps24 \<le> 1"
  proof -
    have "a * b \<le> 1000 * 1000" using assms(5-8) by (intro mult_mono) simp_all
    then have "a * b * eps24 \<le> 1000 * 1000 * eps24"
      using eps24_pos(2) by (rule mult_right_mono)
    with eps24_small(2) show ?thesis by linarith
  qed
  have x12: "0 \<le> eps24 * (x1 * x2)" using assms(3,4) eps24_pos(2) by simp
  have "(a * eps24 * x1) * (b * eps24 * x2) = (a * b * eps24) * (eps24 * (x1 * x2))"
    by simp
  also have "\<dots> \<le> 1 * (eps24 * (x1 * x2))"
    using ab x12 by (rule mult_right_mono)
  finally have c3: "\<bar>C\<bar> \<le> eps24 * (x1 * x2)" using 3 by simp
  have "\<bar>A + B + C\<bar> \<le> \<bar>A\<bar> + \<bar>B\<bar> + \<bar>C\<bar>" by linarith
  also have "\<dots> \<le> (a * eps24 * x1) * x2 + x1 * (b * eps24 * x2) + eps24 * (x1 * x2)"
    using 1 2 c3 by linarith
  also have "\<dots> = (a + b + 1) * eps24 * (x1 * x2)"
    by (simp add: algebra_simps)
  finally show ?thesis by (simp only: near_def split)
qed

lemma near_div:
  assumes "near a y1 x1" "near b y2 x2" "0 \<le> x1" "0 < x2" "0 \<le> a" "0 \<le> b" "b \<le> 1000"
  shows "near (2 * (a + b)) (y1 / y2) (x1 / x2)"
proof -
  from assms have d1: "\<bar>y1 - x1\<bar> \<le> a * eps24 * x1" and d2: "\<bar>y2 - x2\<bar> \<le> b * eps24 * x2"
    by (simp_all add: near_def)
  have "b * eps24 \<le> 1000 * eps24"
    using assms(7) eps24_pos(2) by (rule mult_right_mono)
  moreover have "1000 * eps24 \<le> 1 / 2" by (simp add: eps24_def)
  ultimately have "b * eps24 \<le> 1 / 2" by linarith
  then have "b * eps24 * x2 \<le> 1 / 2 * x2"
    using assms(4) by (intro mult_right_mono) simp_all
  with d2 have y2lo: "x2 / 2 \<le> y2" by linarith
  with assms(4) have y2pos: "0 < y2" by linarith
  have "y1 / y2 - x1 / x2 = ((y1 - x1) * x2 - x1 * (y2 - x2)) / (y2 * x2)"
    using y2pos assms(4) by (simp add: field_simps)
  then have "\<bar>y1 / y2 - x1 / x2\<bar> = \<bar>(y1 - x1) * x2 - x1 * (y2 - x2)\<bar> / (y2 * x2)"
    using y2pos assms(4) by (simp add: abs_mult)
  also have "\<dots> \<le> ((a + b) * eps24 * (x1 * x2)) / (y2 * x2)"
  proof (rule divide_right_mono)
    have 1: "\<bar>(y1 - x1) * x2\<bar> \<le> (a * eps24 * x1) * x2"
      using d1 assms(4) by (simp add: abs_mult mult_right_mono)
    have 2: "\<bar>x1 * (y2 - x2)\<bar> \<le> x1 * (b * eps24 * x2)"
      using d2 assms(3) by (simp add: abs_mult mult_left_mono)
    have "\<bar>(y1 - x1) * x2 - x1 * (y2 - x2)\<bar> \<le> \<bar>(y1 - x1) * x2\<bar> + \<bar>x1 * (y2 - x2)\<bar>"
      by linarith
    also have "\<dots> \<le> (a * eps24 * x1) * x2 + x1 * (b * eps24 * x2)"
      using 1 2 by linarith
    also have "\<dots> = (a + b) * eps24 * (x1 * x2)" by (simp add: algebra_simps)
    finally show "\<bar>(y1 - x1) * x2 - x1 * (y2 - x2)\<bar> \<le> (a + b) * eps24 * (x1 * x2)" .
    show "0 \<le> y2 * x2" using y2pos assms(4) by simp
  qed
  also have "\<dots> = ((a + b) * eps24 * x1) / y2"
    using assms(4) by simp
  also have "\<dots> \<le> ((a + b) * eps24 * x1) / (x2 / 2)"
  proof (rule divide_left_mono)
    show "x2 / 2 \<le> y2" by (rule y2lo)
    show "0 \<le> (a + b) * eps24 * x1" using assms(3,5,6) eps24_pos(2) by simp
    show "0 < y2 * (x2 / 2)" using y2pos assms(4) by simp
  qed
  also have "\<dots> = 2 * (a + b) * eps24 * (x1 / x2)"
    by simp
  finally show ?thesis by (simp only: near_def)
qed

lemma near_sub:
  assumes "near a y1 x1" "near b y2 x2" "0 \<le> x1" "0 \<le> x2" "a \<le> k" "b \<le> k" "0 \<le> k"
    and "x1 + x2 \<le> K * (x1 - x2)"
  shows "near (K * k) (y1 - y2) (x1 - x2)"
proof -
  from near_mono [OF assms(1,5,3)] near_mono [OF assms(2,6,4)]
  have d1: "\<bar>y1 - x1\<bar> \<le> k * eps24 * x1" and d2: "\<bar>y2 - x2\<bar> \<le> k * eps24 * x2"
    by (simp_all add: near_def)
  have "\<bar>(y1 - y2) - (x1 - x2)\<bar> \<le> \<bar>y1 - x1\<bar> + \<bar>y2 - x2\<bar>" by linarith
  also have "\<dots> \<le> k * eps24 * x1 + k * eps24 * x2" using d1 d2 by linarith
  also have "\<dots> = (k * eps24) * (x1 + x2)" by (simp add: algebra_simps)
  also have "\<dots> \<le> (k * eps24) * (K * (x1 - x2))"
    using assms(8) by (rule mult_left_mono) (use assms(7) eps24_pos(2) in simp)
  also have "\<dots> = (K * k) * eps24 * (x1 - x2)" by simp
  finally show ?thesis by (simp only: near_def)
qed

lemma near_bounds:
  assumes "near k y x"
  shows "x - k * eps24 * x \<le> y" "y \<le> x + k * eps24 * x"
  using assms unfolding near_def by linarith+

lemma to_float_error: "\<bar>to_float x - x\<bar> \<le> \<bar>x\<bar> * eps24"
proof -
  have "\<bar>fl 24 x - x\<bar> \<le> \<bar>x\<bar> * 2 powi (- int 24)" by (rule fl_error)
  also have "\<dots> \<le> \<bar>x\<bar> * eps24"
    using eps24_bound [of 24] by (intro mult_left_mono) simp_all
  finally show ?thesis by (simp add: to_float_def)
qed

lemma near_to_float:
  "near k y x \<Longrightarrow> 0 \<le> x \<Longrightarrow> 0 \<le> k \<Longrightarrow> k \<le> 1000 \<Longrightarrow> near (k + 2) (to_float y) x"
  unfolding to_float_def by (rule near_fl) simp_all

lemma near_to_double:
  "near k y x \<Longrightarrow> 0 \<le> x \<Longrightarrow> 0 \<le> k \<Longrightarrow> k \<le> 1000 \<Longrightarrow> near (k + 2) (to_double y) x"
  unfolding to_double_def by (rule near_fl) simp_all

lemma to_float_int: "\<bar>n\<bar> < 2 ^ 24 \<Longrightarrow> to_float (of_int n) = of_int n"
  unfolding to_float_def by (rule fl_int)

lemma to_float_half: "\<bar>n\<bar> < 2 ^ 24 \<Longrightarrow> to_float (of_int n / 2) = of_int n / 2"
  unfolding to_float_def by (rule fl_half_int)

lemma to_double_half: "\<bar>n\<bar> < 2 ^ 53 \<Longrightarrow> to_double (of_int n / 2) = of_int n / 2"
  unfolding to_double_def by (rule fl_half_int)

lemma to_double_int: "\<bar>n\<bar> < 2 ^ 53 \<Longrightarrow> to_double (of_int n) = of_int n"
  unfolding to_double_def by (rule fl_int)

section \<open>Timing: error analysis\<close>

lemma near_unit_len:
  assumes "1 \<le> w"
  shows "near 6 (unit_len w) (6 / (5 * w))"
proof -
  have "near 0 (12 / 10) (12 / 10 :: real)" by (rule near_refl) simp_all
  then have "near (0 + 2) (to_double (12 / 10)) (12 / 10)"
    by (rule near_to_double) simp_all
  then have "near (0 + 2) ((1 / w) * to_double (12 / 10)) ((1 / w) * (12 / 10))"
    by (rule near_scale) (use assms in simp)
  then have a: "near 2 (to_double (12 / 10) / w) (6 / (5 * w))"
    using assms by (simp add: field_simps)
  have pos: "0 \<le> 6 / (5 * w)" using assms by simp
  from a have "near (2 + 2) (to_double (to_double (12 / 10) / w)) (6 / (5 * w))"
    using pos by (rule near_to_double) simp_all
  then have "near (2 + 2 + 2) (to_float (to_double (to_double (12 / 10) / w))) (6 / (5 * w))"
    using pos by (rule near_to_float) simp_all
  then show ?thesis by (simp add: unit_len_def)
qed

lemma of_u_int_nonneg [simp]: "0 \<le> of_u_int n"
  by (simp only: of_u_int_def of_nat_0_le_iff)

lemma near_rate:
  "near 2 (to_float (of_u_int rate)) (of_u_int rate)"
proof -
  have "near 0 (of_u_int rate) (of_u_int rate)"
    by (rule near_refl) simp_all
  then have "near (0 + 2) (to_float (of_u_int rate)) (of_u_int rate)"
    by (rule near_to_float) simp_all
  then show ?thesis by simp
qed

lemma near_snd_arg:
  assumes "1 \<le> c" "0 \<le> units"
  shows "near 18 (snd_arg c rate units) ((units + 1) * (6 / (5 * c)) * of_u_int rate)"
proof -
  let ?U = "6 / (5 * c)" and ?R = "of_u_int rate"
  have U: "0 \<le> ?U" using assms by simp
  have R: "0 \<le> ?R" by simp
  have k: "0 \<le> units + 1" using assms by simp
  have "near 0 (units + 1) (units + 1)" using k by (rule near_refl) simp
  then have "near (0 + 2) (to_double (units + 1)) (units + 1)"
    using k by (rule near_to_double) simp_all
  then have "near 2 (to_double (units + 1)) (units + 1)" by simp
  from near_mult [OF this near_unit_len [OF assms(1)] k U]
  have "near (2 + 6 + 1) (to_double (units + 1) * unit_len c) ((units + 1) * ?U)" by simp
  then have "near (2 + 6 + 1 + 2) (to_double (to_double (units + 1) * unit_len c)) ((units + 1) * ?U)"
    by (rule near_to_double) (use k U in simp_all)
  then have "near 11 (to_double (to_double (units + 1) * unit_len c)) ((units + 1) * ?U)" by simp
  from near_mult [OF this near_rate [of rate] _ R]
  have "near (11 + 2 + 1) (to_double (to_double (units + 1) * unit_len c) * to_float ?R)
          ((units + 1) * ?U * ?R)"
    using k U by simp
  then have "near (11 + 2 + 1 + 2)
      (to_double (to_double (to_double (units + 1) * unit_len c) * to_float ?R))
      ((units + 1) * ?U * ?R)"
    by (rule near_to_double) (use k U R in simp_all)
  then have "near (11 + 2 + 1 + 2 + 2)
      (to_float (to_double (to_double (to_double (units + 1) * unit_len c) * to_float ?R)))
      ((units + 1) * ?U * ?R)"
    by (rule near_to_float) (use k U R in simp_all)
  then show ?thesis by (simp add: snd_arg_def)
qed

lemma near_Ta:
  assumes "1 \<le> ov" "ov < c"
  shows "near 52
     (to_float (to_double
        (to_double (to_double (60 * c) - to_double (to_double (372 / 10) * ov))
         / to_double (c * ov))))
     ((60 * c - (372 / 10) * ov) / (c * ov))"
proof -
  have c: "1 \<le> c" using assms by simp
  have "near 0 (60 * c) (60 * c)" by (rule near_refl) (use c in simp_all)
  then have "near (0 + 2) (to_double (60 * c)) (60 * c)"
    by (rule near_to_double) (use c in simp_all)
  then have a: "near 2 (to_double (60 * c)) (60 * c)" by simp
  have "near 0 (372 / 10) (372 / 10 :: real)" by (rule near_refl) simp_all
  then have "near (0 + 2) (to_double (372 / 10)) (372 / 10)"
    by (rule near_to_double) simp_all
  then have "near (0 + 2) (ov * to_double (372 / 10)) (ov * (372 / 10))"
    by (rule near_scale) (use assms in simp)
  then have "near 2 (to_double (372 / 10) * ov) ((372 / 10) * ov)"
    by (simp add: mult.commute)
  then have "near (2 + 2) (to_double (to_double (372 / 10) * ov)) ((372 / 10) * ov)"
    by (rule near_to_double) (use assms in simp_all)
  then have b: "near 4 (to_double (to_double (372 / 10) * ov)) ((372 / 10) * ov)" by simp
  have K: "60 * c + (372 / 10) * ov \<le> 5 * (60 * c - (372 / 10) * ov)"
    using assms by simp
  have "near (5 * 4) (to_double (60 * c) - to_double (to_double (372 / 10) * ov))
          (60 * c - (372 / 10) * ov)"
    by (rule near_sub [OF a b _ _ _ _ _ K]) (use assms in simp_all)
  then have "near (5 * 4 + 2)
      (to_double (to_double (60 * c) - to_double (to_double (372 / 10) * ov)))
      (60 * c - (372 / 10) * ov)"
    by (rule near_to_double) (use assms in simp_all)
  then have num: "near 22
      (to_double (to_double (60 * c) - to_double (to_double (372 / 10) * ov)))
      (60 * c - (372 / 10) * ov)" by simp
  have "near 0 (c * ov) (c * ov)" by (rule near_refl) (use assms in simp_all)
  then have "near (0 + 2) (to_double (c * ov)) (c * ov)"
    by (rule near_to_double) (use assms in simp_all)
  then have den: "near 2 (to_double (c * ov)) (c * ov)" by simp
  have pos: "0 \<le> (60 * c - (372 / 10) * ov) / (c * ov)"
    using assms by simp
  have "near (2 * (22 + 2))
      (to_double (to_double (60 * c) - to_double (to_double (372 / 10) * ov)) / to_double (c * ov))
      ((60 * c - (372 / 10) * ov) / (c * ov))"
    by (rule near_div [OF num den]) (use assms in simp_all)
  then have "near (2 * (22 + 2) + 2)
      (to_double (to_double (to_double (60 * c) - to_double (to_double (372 / 10) * ov))
         / to_double (c * ov)))
      ((60 * c - (372 / 10) * ov) / (c * ov))"
    using pos by (rule near_to_double) simp_all
  then have "near (2 * (22 + 2) + 2 + 2)
      (to_float (to_double (to_double (to_double (60 * c) - to_double (to_double (372 / 10) * ov))
         / to_double (c * ov))))
      ((60 * c - (372 / 10) * ov) / (c * ov))"
    using pos by (rule near_to_float) simp_all
  then show ?thesis by simp
qed

lemma gap_unit_stretch:
  "\<not> c \<le> ov \<Longrightarrow>
   gap_unit ov c = (60 * c - (372 / 10) * ov) / (c * ov) / 19"
  by (simp only: gap_unit_def if_False)

lemma gap_unit_plain:
  "c \<le> ov \<Longrightarrow> gap_unit ov c = 6 / (5 * ov)"
  by (simp only: gap_unit_def if_True)

lemma gap_unit_bounds:
  assumes "1 \<le> ov" "ov \<le> c"
  shows "6 / (5 * c) \<le> gap_unit ov c" "gap_unit ov c \<le> 60 / 19" "0 \<le> gap_unit ov c"
proof -
  have c: "1 \<le> c" using assms by simp
  have co: "0 < c * ov" using assms c by simp
  show lo: "6 / (5 * c) \<le> gap_unit ov c"
  proof (cases "c \<le> ov")
    case True
    with assms have "ov = c" by simp
    with True show ?thesis by (simp only: gap_unit_plain)
  next
    case False
    have e: "6 / (5 * c) * (19 * (c * ov)) = 114 * ov / 5"
      using c by simp
    have "114 * ov / 5 \<le> 60 * c - (372 / 10) * ov"
      using assms by simp
    then have "6 / (5 * c) * (19 * (c * ov)) \<le> 60 * c - (372 / 10) * ov"
      by (simp only: e)
    moreover have "0 < 19 * (c * ov)" using co by simp
    ultimately have "6 / (5 * c) \<le> (60 * c - (372 / 10) * ov) / (19 * (c * ov))"
      by (simp only: pos_le_divide_eq)
    also have "\<dots> = (60 * c - (372 / 10) * ov) / (c * ov) / 19"
      by simp
    finally show ?thesis by (simp only: gap_unit_stretch [OF False])
  qed
  show "gap_unit ov c \<le> 60 / 19"
  proof (cases "c \<le> ov")
    case True
    have "6 / (5 * ov) \<le> 6 / (5 * 1)"
      using assms by (intro divide_left_mono) simp_all
    also have "\<dots> \<le> (60 / 19 :: real)" by simp
    finally show ?thesis by (simp only: gap_unit_plain [OF True])
  next
    case False
    have "c * 1 \<le> c * ov" using assms c by (intro mult_left_mono) simp_all
    moreover have "0 \<le> ov" using assms by simp
    ultimately have "60 * c - (372 / 10) * ov \<le> 60 * (c * ov)" by simp
    then have "(60 * c - (372 / 10) * ov) / (c * ov) \<le> 60 * (c * ov) / (c * ov)"
      using co by (intro divide_right_mono) simp_all
    also have "\<dots> = 60" using assms c by simp
    finally have "(60 * c - (372 / 10) * ov) / (c * ov) / 19 \<le> 60 / 19"
      by (intro divide_right_mono) simp_all
    then show ?thesis by (simp only: gap_unit_stretch [OF False])
  qed
  have "0 \<le> 6 / (5 * c)" using c by simp
  with lo show "0 \<le> gap_unit ov c" by linarith
qed

lemma near_divc: "near k y x \<Longrightarrow> 0 < d \<Longrightarrow> near k (y / d) (x / d)"
proof -
  assume a: "near k y x" "0 < d"
  then have "near k ((1 / d) * y) ((1 / d) * x)"
    by (intro near_scale) simp_all
  then show ?thesis by simp
qed

lemma near_gap_samplen:
  assumes "1 \<le> ov" "ov \<le> c" "0 \<le> k"
  shows "near 63 (gap_samplen k ov c rate) (k * gap_unit ov c * of_u_int rate)"
proof (cases "c \<le> ov")
  case True
  let ?U = "6 / (5 * ov)" and ?R = "of_u_int rate"
  have U: "0 \<le> ?U" using assms by simp
  from near_unit_len [OF assms(1)] have "near 6 (k * unit_len ov) (k * ?U)"
    using assms(3) by (rule near_scale)
  then have "near (6 + 2) (to_double (k * unit_len ov)) (k * ?U)"
    by (rule near_to_double) (use assms U in simp_all)
  then have "near (6 + 2 + 2 + 1) (to_double (k * unit_len ov) * to_float ?R) (k * ?U * ?R)"
    by (rule near_mult [OF _ near_rate]) (use assms U in simp_all)
  then have "near (6 + 2 + 2 + 1 + 2) (to_double (to_double (k * unit_len ov) * to_float ?R))
      (k * ?U * ?R)"
    by (rule near_to_double) (use assms U in simp_all)
  then have n: "near (6 + 2 + 2 + 1 + 2 + 2)
      (to_float (to_double (to_double (k * unit_len ov) * to_float ?R))) (k * ?U * ?R)"
    by (rule near_to_float) (use assms U in simp_all)
  have gs: "gap_samplen k ov c rate
      = to_float (to_double (to_double (k * unit_len ov) * to_float ?R))"
    unfolding gap_samplen_def using True by (simp only: if_True)
  have gu: "k * gap_unit ov c * ?R = k * ?U * ?R"
    by (simp only: gap_unit_plain [OF True])
  from n show ?thesis
    unfolding gs gu by (rule near_mono) (use assms U in simp_all)
next
  case False
  then have lt: "ov < c" by simp
  let ?TA = "(60 * c - (372 / 10) * ov) / (c * ov)" and ?R = "of_u_int rate"
  define Ta where "Ta = to_float (to_double
        (to_double (to_double (60 * c) - to_double (to_double (372 / 10) * ov))
         / to_double (c * ov)))"
  have TA: "0 \<le> ?TA" using assms lt by simp
  from near_Ta [OF assms(1) lt] have "near 52 Ta ?TA" by (simp add: Ta_def)
  then have "near 52 (k * Ta) (k * ?TA)"
    using assms(3) by (rule near_scale)
  then have "near (52 + 2) (to_double (k * Ta)) (k * ?TA)"
    by (rule near_to_double) (use assms TA in simp_all)
  then have "near (52 + 2) (to_double (k * Ta) / 19) (k * ?TA / 19)"
    by (rule near_divc) simp
  then have "near (52 + 2 + 2) (to_double (to_double (k * Ta) / 19)) (k * ?TA / 19)"
    by (rule near_to_double) (use assms TA in simp_all)
  then have "near (52 + 2 + 2 + 2) (to_float (to_double (to_double (k * Ta) / 19))) (k * ?TA / 19)"
    by (rule near_to_float) (use assms TA in simp_all)
  then have "near 58 (to_float (to_double (to_double (k * Ta) / 19))) (k * ?TA / 19)"
    by (rule near_mono) (use assms TA in simp_all)
  then have "near (58 + 2 + 1) (to_float (to_double (to_double (k * Ta) / 19)) * to_float ?R)
      (k * ?TA / 19 * ?R)"
    by (rule near_mult [OF _ near_rate]) (use assms TA in simp_all)
  then have n: "near (58 + 2 + 1 + 2)
      (to_float (to_float (to_double (to_double (k * Ta) / 19)) * to_float ?R))
      (k * ?TA / 19 * ?R)"
    by (rule near_to_float) (use assms TA in simp_all)
  have gs: "gap_samplen k ov c rate
      = to_float (to_float (to_double (to_double (k * Ta) / 19)) * to_float ?R)"
    unfolding gap_samplen_def Ta_def Let_def using False by (simp only: if_False)
  have gu: "k * gap_unit ov c * ?R = k * ?TA / 19 * ?R"
    by (simp only: gap_unit_stretch [OF False] times_divide_eq_right)
  from n show ?thesis
    unfolding gs gu by (rule near_mono) (use assms TA in simp_all)
qed

lemma rne_bounds: "of_int (rne y) \<le> y + 1 / 2" "y - 1 / 2 \<le> of_int (rne y)"
  using rne_error [of y] by linarith+

lemma to_float_bounds:
  assumes "0 \<le> x"
  shows "x - x / 16777216 \<le> to_float x" "to_float x \<le> x + x / 16777216"
proof -
  have "\<bar>to_float x - x\<bar> \<le> x * eps24"
    using to_float_error [of x] assms by simp
  also have "x * eps24 = x / 16777216" by (simp add: eps24_def)
  finally have "\<bar>to_float x - x\<bar> \<le> x / 16777216" .
  then show "x - x / 16777216 \<le> to_float x" "to_float x \<le> x + x / 16777216"
    by linarith+
qed

lemma near_numeric:
  assumes "near k y x"
  shows "x - k * x / 16777216 \<le> y" "y \<le> x + k * x / 16777216"
proof -
  have "k * eps24 * x = k * x / 16777216" by (simp add: eps24_def)
  with near_bounds [OF assms] show "x - k * x / 16777216 \<le> y" "y \<le> x + k * x / 16777216"
    by simp_all
qed

lemma timing_facts:
  fixes ov c :: real and rate :: u_int
  assumes ov: "1 \<le> ov" "ov \<le> c" "c \<le> 70"
    and rate: "8000 \<le> of_u_int rate" "of_u_int rate \<le> 192000"
  defines "a \<equiv> 6 / (5 * c) * of_u_int rate"
    and "b \<equiv> gap_unit ov c * of_u_int rate"
    and "D \<equiv> real_of_int (dit_samples c rate)"
    and "H \<equiv> real_of_int (dah_samples c rate)"
    and "G \<equiv> real_of_int (inChar_samples ov c rate)"
    and "W \<equiv> real_of_int (inWord_samples ov c rate)"
  shows "137 \<le> a" "a \<le> b"
    and "0 < D" "D < H" "H < 2 ^ 20" "0 < G" "G < W" "2 * G + D < 2 ^ 22" "W < 2 ^ 23"
    and "100 * \<bar>(31 * a + 19 * b) - (10 * D + 4 * H + 5 * G + W)\<bar> \<le> 10 * D + 4 * H + 5 * G + W"
    and "428 * a \<le> 228 * b \<Longrightarrow> H < G"
proof -
  define R where "R = of_u_int rate"
  have c: "1 \<le> c" using ov by simp
  have R: "8000 \<le> R" "R \<le> 192000" using rate by (simp_all add: R_def)
  have a_eq: "a = 6 * R / (5 * c)" by (simp add: a_def R_def)
  have "137 * (5 * c) \<le> 6 * R" using ov R by simp
  then show a_lo: "137 \<le> a"
    unfolding a_eq using c by (simp only: pos_le_divide_eq)
  have "6 * R \<le> 230400 * (5 * c)" using c R by simp
  then have a_hi: "a \<le> 230400"
    unfolding a_eq using c by (simp only: pos_divide_le_eq)
  have "6 / (5 * c) * R \<le> gap_unit ov c * R"
    using gap_unit_bounds(1) [OF ov(1,2)] R by (intro mult_right_mono) simp_all
  then show ab: "a \<le> b" by (simp add: a_def b_def R_def)
  have "gap_unit ov c * R \<le> 60 / 19 * R"
    using gap_unit_bounds(2) [OF ov(1,2)] R by (intro mult_right_mono) simp_all
  also have "\<dots> \<le> 606316" using R by simp
  finally have b_hi: "b \<le> 606316" by (simp add: b_def R_def)
  define aD where "aD = snd_arg c rate 1"
  define aH where "aH = snd_arg c rate 3"
  define S3 where "S3 = gap_samplen 3 ov c rate"
  define S7 where "S7 = gap_samplen 7 ov c rate"
  have "near 18 aD ((1 + 1) * (6 / (5 * c)) * of_u_int rate)"
    unfolding aD_def by (rule near_snd_arg) (use c in simp_all)
  moreover have "(1 + 1) * (6 / (5 * c)) * of_u_int rate = 2 * a" by (simp add: a_def)
  ultimately have "near 18 aD (2 * a)" by (simp only:)
  from near_numeric [OF this] have aD: "2 * a - 18 * (2 * a) / 16777216 \<le> aD" "aD \<le> 2 * a + 18 * (2 * a) / 16777216"
    by simp_all
  have "near 18 aH ((3 + 1) * (6 / (5 * c)) * of_u_int rate)"
    unfolding aH_def by (rule near_snd_arg) (use c in simp_all)
  moreover have "(3 + 1) * (6 / (5 * c)) * of_u_int rate = 4 * a" by (simp add: a_def)
  ultimately have "near 18 aH (4 * a)" by (simp only:)
  from near_numeric [OF this] have aH: "4 * a - 18 * (4 * a) / 16777216 \<le> aH" "aH \<le> 4 * a + 18 * (4 * a) / 16777216"
    by simp_all
  have "near 63 S3 (3 * gap_unit ov c * of_u_int rate)"
    unfolding S3_def by (rule near_gap_samplen) (use ov in simp_all)
  moreover have "3 * gap_unit ov c * of_u_int rate = 3 * b" by (simp add: b_def)
  ultimately have "near 63 S3 (3 * b)" by (simp only:)
  from near_numeric [OF this] have S3: "3 * b - 63 * (3 * b) / 16777216 \<le> S3" "S3 \<le> 3 * b + 63 * (3 * b) / 16777216"
    by simp_all
  have "near 63 S7 (7 * gap_unit ov c * of_u_int rate)"
    unfolding S7_def by (rule near_gap_samplen) (use ov in simp_all)
  moreover have "7 * gap_unit ov c * of_u_int rate = 7 * b" by (simp add: b_def)
  ultimately have "near 63 S7 (7 * b)" by (simp only:)
  from near_numeric [OF this] have S7: "7 * b - 63 * (7 * b) / 16777216 \<le> S7" "S7 \<le> 7 * b + 63 * (7 * b) / 16777216"
    by simp_all
  have D: "D \<le> aD + 1 / 2" "aD - 1 / 2 \<le> D"
    unfolding D_def dit_samples_def aD_def by (rule rne_bounds)+
  have H: "H \<le> aH + 1 / 2" "aH - 1 / 2 \<le> H"
    unfolding H_def dah_samples_def aH_def by (rule rne_bounds)+
  from aD D have d1: "D \<le> 2 * a + (1 / 2 + 36 * a / 16777216)"
    "2 * a - (1 / 2 + 36 * a / 16777216) \<le> D"
    by linarith+
  from aH H have d2: "H \<le> 4 * a + (1 / 2 + 72 * a / 16777216)"
    "4 * a - (1 / 2 + 72 * a / 16777216) \<le> H"
    by linarith+
  from a_lo d1 show D_pos: "0 < D" by linarith
  from a_lo d1 d2 show "D < H" by linarith
  from a_hi d2 have "H < 1048576" by linarith
  then show "H < 2 ^ 20" by simp
  define g where "g = S3 - D / 2"
  define fg where "fg = to_float g"
  have g_lo: "0 \<le> g"
    using a_lo ab S3(1) d1(1) unfolding g_def by linarith
  have g_hi: "g \<le> 4 * b"
    using a_lo ab S3(2) D_pos unfolding g_def by linarith
  from to_float_bounds [OF g_lo] have "g - g / 16777216 \<le> fg" "fg \<le> g + g / 16777216"
    by (simp_all add: fg_def)
  with g_hi have fg: "g - 4 * b / 16777216 \<le> fg" "fg \<le> g + 4 * b / 16777216"
    by linarith+
  have G: "G \<le> fg + 1 / 2" "fg - 1 / 2 \<le> G"
    unfolding G_def inChar_samples_def fg_def g_def S3_def D_def by (rule rne_bounds)+
  from S3 fg G have g1: "G \<le> (3 * b - D / 2) + (1 / 2 + 193 * b / 16777216)"
    "(3 * b - D / 2) - (1 / 2 + 193 * b / 16777216) \<le> G"
    unfolding g_def by linarith+
  from a_lo ab d1(1) g1(2) show G_pos: "0 < G" by linarith
  define h where "h = S7 - (G + D / 2)"
  define fh where "fh = to_float h"
  have h_lo: "0 \<le> h"
    using a_lo ab S7(1) g1(1) unfolding h_def by linarith
  have h_hi: "h \<le> 8 * b"
    using a_lo ab S7(2) g1(2) unfolding h_def by linarith
  from to_float_bounds [OF h_lo] have "h - h / 16777216 \<le> fh" "fh \<le> h + h / 16777216"
    by (simp_all add: fh_def)
  with h_hi have fh: "h - 8 * b / 16777216 \<le> fh" "fh \<le> h + 8 * b / 16777216"
    by linarith+
  have W: "W \<le> fh + 1 / 2" "fh - 1 / 2 \<le> W"
    unfolding W_def inWord_samples_def fh_def h_def S7_def G_def D_def by (rule rne_bounds)+
  from S7 fh W have w1: "W \<le> (7 * b - (G + D / 2)) + (1 / 2 + 449 * b / 16777216)"
    "(7 * b - (G + D / 2)) - (1 / 2 + 449 * b / 16777216) \<le> W"
    unfolding h_def by linarith+
  from a_lo ab D_pos g1(1) w1(2) show "G < W" by linarith
  from b_hi g1(1) have "2 * G + D < 4194304" by linarith
  then show "2 * G + D < 2 ^ 22" by simp
  from b_hi D_pos G_pos w1(1) have "W < 8388608" by linarith
  then show "W < 2 ^ 23" by simp
  define P where "P = 10 * D + 4 * H + 5 * G + W"
  define B where "B = 33 / 4 + (558 * a + 1221 * b) / 16777216"
  from d1(1) d2(1) g1(1) w1(1) have up: "P \<le> (31 * a + 19 * b) + B"
    unfolding P_def B_def by argo
  from d1(2) d2(2) g1(2) w1(2) have lo: "(31 * a + 19 * b) - B \<le> P"
    unfolding P_def B_def by argo
  from up lo have E: "\<bar>(31 * a + 19 * b) - P\<bar> \<le> B" by linarith
  from a_lo ab have "101 * B \<le> 31 * a + 19 * b"
    unfolding B_def by argo
  with lo have "100 * B \<le> P" by linarith
  with E have "100 * \<bar>(31 * a + 19 * b) - P\<bar> \<le> P" by argo
  then show "100 * \<bar>(31 * a + 19 * b) - (10 * D + 4 * H + 5 * G + W)\<bar> \<le> 10 * D + 4 * H + 5 * G + W"
    by (simp only: P_def)
  assume "428 * a \<le> 228 * b"
  with a_lo b_hi d1(1) d2(1) g1(2) show "H < G" by linarith
qed

section \<open>Timing: lengths in samples\<close>

lemma to_u_int_of_int [simp]: "to_u_int (of_int n) = word_of_int n"
  by (simp add: to_u_int_def)

lemma of_u_int_word: "0 \<le> n \<Longrightarrow> n < 2 ^ 32 \<Longrightarrow> of_u_int (word_of_int n :: u_int) = of_int n"
proof -
  assume a: "0 \<le> n" "n < 2 ^ 32"
  then have "uint (word_of_int n :: u_int) = n"
    by (simp add: uint_word_of_int take_bit_int_eq_self)
  then have "int (unat (word_of_int n :: u_int)) = n"
    by simp
  then have "real (unat (word_of_int n :: u_int)) = real_of_int n"
    by (metis of_int_of_nat_eq)
  then show ?thesis by (simp only: of_u_int_def)
qed

lemma uint_word_small:
  "0 \<le> m \<Longrightarrow> m < 2 ^ 32 \<Longrightarrow> uint (word_of_int m :: u_int) = m"
  by (simp add: uint_word_of_int take_bit_int_eq_self)

lemma word_div_4:
  assumes "0 \<le> n" "n < 2 ^ 30"
  shows "(word_of_int (4 * n) :: u_int) div 4 = word_of_int n"
proof -
  define m where "m = 4 * n"
  from assms have "0 \<le> m" "m < 2 ^ 32" by (simp_all add: m_def)
  then have u: "uint (word_of_int m :: u_int) = m" by (rule uint_word_small)
  have "uint ((word_of_int m :: u_int) div 4) = uint (word_of_int m :: u_int) div uint (4 :: u_int)"
    by (rule uint_div)
  also have "\<dots> = m div 4" by (simp only: u) simp
  also have "\<dots> = n" by (simp add: m_def)
  finally have "uint ((word_of_int m :: u_int) div 4) = n" .
  then have "(word_of_int m :: u_int) div 4 = word_of_int n"
    by (metis word_of_int_uint)
  then show ?thesis by (simp only: m_def)
qed

lemma gap_samplen_3:
  "gap_samplen 3 ov c rate =
     (if c \<le> ov then
        to_float (to_double (to_double (3 * unit_len ov) * to_float (of_u_int rate)))
      else
        (let Ta = to_float (to_double
                    (to_double (to_double (60 * c) - to_double (to_double (372 / 10) * ov))
                     / to_double (c * ov)));
             Tc = to_float (to_double (to_double (3 * Ta) / 19))
         in to_float (Tc * to_float (of_u_int rate))))"
  by (simp only: gap_samplen_def)

lemma gap_samplen_7:
  "gap_samplen 7 ov c rate =
     (if c \<le> ov then
        to_float (to_double (to_double (7 * unit_len ov) * to_float (of_u_int rate)))
      else
        (let Ta = to_float (to_double
                    (to_double (to_double (60 * c) - to_double (to_double (372 / 10) * ov))
                     / to_double (c * ov)));
             Tc = to_float (to_double (to_double (7 * Ta) / 19))
         in to_float (Tc * to_float (of_u_int rate))))"
  by (simp only: gap_samplen_def)

lemma build_snd_len_eq:
  assumes "pcm_format ps"
  shows "build_snd_len c ps units =
     Some (word_of_int (frame_bytes ps * rne (snd_arg c (sp_rate ps) units)))"
  using assms
  by (auto simp: pcm_format_def frame_bytes_def build_snd_len_def build_snd_nsamps_def
      snd_arg_def rintf_def)

lemma of_u_int_numerals [simp]: "of_u_int 1 = 1" "of_u_int 2 = 2" "of_u_int 4 = 4"
  by (simp_all add: of_u_int_def)

lemma to_float_small [simp]: "to_float 1 = 1" "to_float 2 = 2"
  using to_float_int [of 1] to_float_int [of 2] by simp_all

lemma frame_div:
  assumes "pcm_format ps" "0 \<le> n" "n < 2 ^ 30"
  shows "(word_of_int (frame_bytes ps * n) :: u_int) div (sp_channels ps * (sp_precision ps div 8))
         = word_of_int n"
  using assms word_div_4 [of n]
  by (auto simp: pcm_format_def frame_bytes_def)

lemma frame_scale:
  assumes "pcm_format ps" "\<bar>n\<bar> < 2 ^ 22"
  shows "to_float (to_float (of_int n * to_float (of_u_int (sp_channels ps)))
           * to_float (of_u_int (sp_precision ps div 8))) = of_int (frame_bytes ps * n)"
proof (cases "sp_channels ps = 1")
  case True
  with assms(1) have p: "sp_precision ps = 8" by (auto simp: pcm_format_def)
  from assms(2) have "\<bar>n\<bar> < 2 ^ 24" by simp
  from to_float_int [OF this] True p show ?thesis
    by (simp add: frame_bytes_def)
next
  case False
  with assms(1) have p: "sp_channels ps = 2" "sp_precision ps = 16" by (auto simp: pcm_format_def)
  from assms(2) have a: "\<bar>n * 2\<bar> < 2 ^ 24" and b: "\<bar>n * 2 * 2\<bar> < 2 ^ 24" by simp_all
  have 1: "to_float (of_int n * 2) = of_int (n * 2)"
    using to_float_int [OF a] by simp
  have 2: "to_float (of_int (n * 2) * 2) = of_int (n * 2 * 2)"
    using to_float_int [OF b] by simp
  have 3: "(of_int (n * 2 * 2) :: real) = of_int (4 * n)" by simp
  have "to_float (to_float (of_int n * 2) * 2) = of_int (4 * n)"
    unfolding 1 2 by (rule 3)
  with p show ?thesis
    by (simp add: frame_bytes_def)
qed

lemma half_exact:
  assumes "0 \<le> n" "n < 2 ^ 24"
  shows "to_float (of_int n / 2) = of_int n / 2" "to_double (of_int n / 2) = of_int n / 2"
    "to_float (of_int n) = of_int n"
proof -
  from assms have a: "\<bar>n\<bar> < 2 ^ 24" by simp
  then have b: "\<bar>n\<bar> < 2 ^ 53" by simp
  from to_float_half [OF a] show "to_float (of_int n / 2) = of_int n / 2" .
  from to_double_half [OF b] show "to_double (of_int n / 2) = of_int n / 2" .
  from to_float_int [OF a] show "to_float (of_int n) = of_int n" .
qed

lemma build_inChar_alt:
  "build_inChar ov c ps =
     (to_u_int (to_float (to_float (rintf (to_float (gap_samplen 3 ov c (sp_rate ps)
          - to_float (to_double (to_float (of_u_int
              (sp_ditlen ps div (sp_channels ps * (sp_precision ps div 8)))) / 2))))
          * to_float (of_u_int (sp_channels ps)))
          * to_float (of_u_int (sp_precision ps div 8)))),
      ps\<lparr>sp_inCharlen :=
        to_u_int (to_float (to_float (rintf (to_float (gap_samplen 3 ov c (sp_rate ps)
          - to_float (to_double (to_float (of_u_int
              (sp_ditlen ps div (sp_channels ps * (sp_precision ps div 8)))) / 2))))
          * to_float (of_u_int (sp_channels ps)))
          * to_float (of_u_int (sp_precision ps div 8))))\<rparr>)"
  by (simp only: build_inChar_def gap_samplen_def Let_def)

lemma build_inChar_eq:
  assumes fmt: "pcm_format ps"
    and d: "sp_ditlen ps = word_of_int (frame_bytes ps * D)" "0 \<le> D" "D < 2 ^ 20"
    and g: "G = rne (to_float (gap_samplen 3 ov c (sp_rate ps) - of_int D / 2))" "\<bar>G\<bar> < 2 ^ 22"
  shows "build_inChar ov c ps =
     (word_of_int (frame_bytes ps * G), ps\<lparr>sp_inCharlen := word_of_int (frame_bytes ps * G)\<rparr>)"
proof -
  from d(3) have D30: "D < 2 ^ 30" and D32: "D < 2 ^ 32" and D24: "D < 2 ^ 24" by simp_all
  have ds: "sp_ditlen ps div (sp_channels ps * (sp_precision ps div 8)) = word_of_int D"
    unfolding d(1) using fmt d(2) D30 by (rule frame_div)
  have charu: "to_float (to_double (to_float (of_u_int (word_of_int D :: u_int)) / 2)) = of_int D / 2"
    by (simp only: of_u_int_word [OF d(2) D32] half_exact [OF d(2) D24])
  show ?thesis
    unfolding build_inChar_alt ds charu rintf_def g(1) [symmetric]
      frame_scale [OF fmt g(2)] to_u_int_of_int
    by (rule refl)
qed

lemma build_inWord_alt:
  "build_inWord ov c ps =
     to_u_int (rintf (to_float (gap_samplen 7 ov c (sp_rate ps)
        - to_float (to_float (of_u_int
              (sp_inCharlen ps div (sp_channels ps * (sp_precision ps div 8))))
            + to_float (to_double
                (to_double (to_float (of_u_int (sp_ditlen ps)) / 2)
                 / of_u_int (sp_channels ps * (sp_precision ps div 8))))))))
       * sp_channels ps * (sp_precision ps div 8)"
  by (simp only: build_inWord_def gap_samplen_def Let_def)

lemma build_inWord_eq:
  assumes fmt: "pcm_format ps"
    and d: "sp_ditlen ps = word_of_int (frame_bytes ps * D)" "0 \<le> D" "D < 2 ^ 20"
    and g: "sp_inCharlen ps = word_of_int (frame_bytes ps * G)" "0 \<le> G" "2 * G + D < 2 ^ 22"
  shows "build_inWord ov c ps =
     word_of_int (frame_bytes ps *
       rne (to_float (gap_samplen 7 ov c (sp_rate ps) - (of_int G + of_int D / 2))))"
proof -
  from d(2,3) g(2,3) have G30: "G < 2 ^ 30" and G32: "G < 2 ^ 32" and G24: "G < 2 ^ 24" by simp_all
  from d(3) have D24: "D < 2 ^ 24" by simp
  have gs: "sp_inCharlen ps div (sp_channels ps * (sp_precision ps div 8)) = word_of_int G"
    unfolding g(1) using fmt g(2) G30 by (rule frame_div)
  have ics: "to_float (of_u_int (word_of_int G :: u_int)) = of_int G"
    by (simp only: of_u_int_word [OF g(2) G32] half_exact [OF g(2) G24])
  have ditsamp: "to_float (to_double (to_double (to_float (of_u_int (sp_ditlen ps)) / 2)
            / of_u_int (sp_channels ps * (sp_precision ps div 8)))) = of_int D / 2"
  proof (cases "sp_channels ps = 1")
    case True
    with fmt have p: "sp_precision ps = 8" by (auto simp: pcm_format_def)
    have e: "of_u_int (sp_ditlen ps) = of_int D"
      using of_u_int_word [of D] d True by (simp add: frame_bytes_def)
    have k: "of_u_int (sp_channels ps * (sp_precision ps div 8)) = 1"
      using True p by simp
    show ?thesis
      by (simp only: e k div_by_1 half_exact [OF d(2) D24])
  next
    case False
    with fmt have p: "sp_channels ps = 2" "sp_precision ps = 16" by (auto simp: pcm_format_def)
    from d have b: "0 \<le> 4 * D" "4 * D < 2 ^ 32" "4 * D < 2 ^ 24" by simp_all
    from False d(1) have "sp_ditlen ps = word_of_int (4 * D)" by (simp only: frame_bytes_def if_False)
    then have e: "of_u_int (sp_ditlen ps) = of_int (4 * D)"
      using of_u_int_word [OF b(1,2)] by (simp only:)
    have h1: "to_double (to_float (of_int (4 * D)) / 2) = of_int (4 * D) / 2"
      by (simp only: half_exact [OF b(1,3)])
    have h2: "of_int (4 * D) / 2 / (4 :: real) = of_int D / 2" by simp
    have "to_float (to_double (to_double (to_float (of_int (4 * D)) / 2) / 4)) = of_int D / 2"
      by (simp only: h1 h2 half_exact [OF d(2) D24])
    moreover have "of_u_int (sp_channels ps * (sp_precision ps div 8)) = 4"
      using p by simp
    ultimately show ?thesis by (simp only: e)
  qed
  have sum: "to_float (of_int G + of_int D / 2) = of_int G + of_int D / 2"
  proof -
    have "of_int G + of_int D / 2 = (of_int (2 * G + D) / 2 :: real)" by simp
    moreover have "\<bar>2 * G + D\<bar> < 2 ^ 24" using d(2) g(2,3) by simp
    ultimately show ?thesis using to_float_half [of "2 * G + D"] by (simp only:)
  qed
  have fb: "x * sp_channels ps * (sp_precision ps div 8) = word_of_int (frame_bytes ps) * x" for x :: u_int
    using fmt by (auto simp: pcm_format_def frame_bytes_def)
  show ?thesis
    unfolding build_inWord_alt gs ics ditsamp sum rintf_def to_u_int_of_int fb
    by simp
qed

lemma frame_bytes_upd [simp]:
  "frame_bytes (ps\<lparr>sp_ditlen := x\<rparr>) = frame_bytes ps"
  "frame_bytes (ps\<lparr>sp_dahlen := x\<rparr>) = frame_bytes ps"
  "frame_bytes (ps\<lparr>sp_inCharlen := x\<rparr>) = frame_bytes ps"
  by (simp_all add: frame_bytes_def)

lemma pcm_format_upd [simp]:
  "pcm_format (ps\<lparr>sp_ditlen := x\<rparr>) = pcm_format ps"
  "pcm_format (ps\<lparr>sp_dahlen := x\<rparr>) = pcm_format ps"
  "pcm_format (ps\<lparr>sp_inCharlen := x\<rparr>) = pcm_format ps"
  by (simp_all add: pcm_format_def)

lemma frame_bytes_range: "1 \<le> frame_bytes ps" "frame_bytes ps \<le> 4"
  by (simp_all add: frame_bytes_def)

lemma sample_bounds:
  fixes ov c :: real and rate :: u_int
  assumes "1 \<le> ov" "ov \<le> c" "c \<le> 70" "8000 \<le> of_u_int rate" "of_u_int rate \<le> 192000"
  shows "0 < dit_samples c rate" "dit_samples c rate < dah_samples c rate"
    "dah_samples c rate < 2 ^ 20" "0 < inChar_samples ov c rate"
    "inChar_samples ov c rate < inWord_samples ov c rate"
    "2 * inChar_samples ov c rate + dit_samples c rate < 2 ^ 22"
    "inWord_samples ov c rate < 2 ^ 23"
proof -
  note t = timing_facts [OF assms]
  from t(3) show "0 < dit_samples c rate" by simp
  from t(4) show "dit_samples c rate < dah_samples c rate" by simp
  from t(5) show "dah_samples c rate < 2 ^ 20" by simp
  from t(6) show "0 < inChar_samples ov c rate" by simp
  from t(7) show "inChar_samples ov c rate < inWord_samples ov c rate" by simp
  have "real_of_int (2 * inChar_samples ov c rate + dit_samples c rate) < 2 ^ 22"
    using t(8) by simp
  then show "2 * inChar_samples ov c rate + dit_samples c rate < 2 ^ 22"
    by (simp only: of_int_less_numeral_power_cancel_iff)
  from t(9) show "inWord_samples ov c rate < 2 ^ 23" by simp
qed

lemma build_sounds_samples:
  fixes ov c :: real
  assumes fmt: "pcm_format ps"
    and bD: "0 \<le> dit_samples c (sp_rate ps)" "dit_samples c (sp_rate ps) < 2 ^ 20"
    and bG: "0 \<le> inChar_samples ov c (sp_rate ps)"
      "2 * inChar_samples ov c (sp_rate ps) + dit_samples c (sp_rate ps) < 2 ^ 22"
  shows "build_sounds ov c ps =
     Some \<lparr>dit_len = word_of_int (frame_bytes ps * dit_samples c (sp_rate ps)),
           dah_len = word_of_int (frame_bytes ps * dah_samples c (sp_rate ps)),
           inChar_len = word_of_int (frame_bytes ps * inChar_samples ov c (sp_rate ps)),
           inWord_len = word_of_int (frame_bytes ps * inWord_samples ov c (sp_rate ps))\<rparr>"
proof -
  define D where "D = dit_samples c (sp_rate ps)"
  define H where "H = dah_samples c (sp_rate ps)"
  define G where "G = inChar_samples ov c (sp_rate ps)"
  define W where "W = inWord_samples ov c (sp_rate ps)"
  define m where "m = frame_bytes ps"
  define ps1 where "ps1 = ps\<lparr>sp_ditlen := word_of_int (m * D)\<rparr>"
  define ps2 where "ps2 = ps1\<lparr>sp_dahlen := word_of_int (m * H)\<rparr>"
  define ps3 where "ps3 = ps2\<lparr>sp_inCharlen := word_of_int (m * G)\<rparr>"
  note b = bD [folded D_def] bG [folded G_def D_def]
  have f: "pcm_format ps1" "pcm_format ps2" "pcm_format ps3"
    using fmt by (simp_all add: ps1_def ps2_def ps3_def)
  have fb: "frame_bytes ps1 = m" "frame_bytes ps2 = m" "frame_bytes ps3 = m"
    by (simp_all add: ps1_def ps2_def ps3_def m_def)
  have rt: "sp_rate ps1 = sp_rate ps" "sp_rate ps2 = sp_rate ps" "sp_rate ps3 = sp_rate ps"
    by (simp_all add: ps1_def ps2_def ps3_def)
  have dl: "sp_ditlen ps2 = word_of_int (m * D)" "sp_ditlen ps3 = word_of_int (m * D)"
    by (simp_all add: ps1_def ps2_def ps3_def)
  have gl: "sp_inCharlen ps3 = word_of_int (m * G)"
    by (simp add: ps3_def)
  have dit: "build_dit c ps = Some (word_of_int (m * D), ps1)"
    by (simp add: build_dit_def build_snd_len_eq [OF fmt] D_def dit_samples_def ps1_def m_def)
  have dah: "build_dah c ps1 = Some (word_of_int (m * H), ps2)"
    by (simp add: build_dah_def build_snd_len_eq [OF f(1)] H_def dah_samples_def ps2_def fb rt)
  have D0: "0 \<le> D" "D < 2 ^ 20" using b(1,2) by simp_all
  have G0: "0 \<le> G" "\<bar>G\<bar> < 2 ^ 22" using b by simp_all
  have Gd: "G = rne (to_float (gap_samplen 3 ov c (sp_rate ps2) - of_int D / 2))"
    by (simp only: G_def inChar_samples_def D_def rt)
  have ic: "build_inChar ov c ps2 = (word_of_int (m * G), ps3)"
    using build_inChar_eq [OF f(2) _ D0 Gd G0(2)] dl(1)
    by (simp only: fb ps3_def)
  have iw: "build_inWord ov c ps3 = word_of_int (m * W)"
    using build_inWord_eq [OF f(3) _ D0 _ G0(1) b(4)] dl(2) gl
    by (simp only: fb rt W_def inWord_samples_def G_def D_def)
  show ?thesis
    by (simp add: build_sounds_def dit dah ic iw D_def [symmetric] H_def [symmetric]
        G_def [symmetric] W_def [symmetric] m_def [symmetric])
qed

lemma build_sounds_eq:
  fixes ov c :: real
  assumes r: "1 \<le> ov" "ov \<le> c" "c \<le> 70"
    "8000 \<le> of_u_int (sp_rate ps)" "of_u_int (sp_rate ps) \<le> 192000"
    and fmt: "pcm_format ps"
  shows "build_sounds ov c ps =
     Some \<lparr>dit_len = word_of_int (frame_bytes ps * dit_samples c (sp_rate ps)),
           dah_len = word_of_int (frame_bytes ps * dah_samples c (sp_rate ps)),
           inChar_len = word_of_int (frame_bytes ps * inChar_samples ov c (sp_rate ps)),
           inWord_len = word_of_int (frame_bytes ps * inWord_samples ov c (sp_rate ps))\<rparr>"
proof -
  note b = sample_bounds [OF r]
  from b(1,2,3) have "0 \<le> dit_samples c (sp_rate ps)" "dit_samples c (sp_rate ps) < 2 ^ 20"
    by simp_all
  moreover from b(4) have "0 \<le> inChar_samples ov c (sp_rate ps)" by simp
  ultimately show ?thesis using b(6) by (intro build_sounds_samples fmt)
qed

lemma rne_unique:
  assumes "\<bar>y - of_int n\<bar> < 1 / 2"
  shows "rne y = n"
proof -
  from rne_error [of y] assms have "\<bar>real_of_int (rne y) - of_int n\<bar> < 1" by linarith
  then have "\<bar>real_of_int (rne y - n)\<bar> < 1" by simp
  then have "\<bar>rne y - n\<bar> < 1" by linarith
  then show ?thesis by simp
qed

lemma snd_samples_eval:
  assumes "1 \<le> c" "0 \<le> units"
    and x: "x = (units + 1) * (6 / (5 * c)) * of_u_int rate" "x \<le> 8192"
    and n: "\<bar>x - of_int n\<bar> \<le> 2 / 5"
  shows "rne (snd_arg c rate units) = n"
proof -
  from near_snd_arg [OF assms(1,2), of rate] have "near 18 (snd_arg c rate units) x"
    by (simp only: x(1))
  from near_numeric [OF this] x(2) n have "\<bar>snd_arg c rate units - of_int n\<bar> < 1 / 2"
    by argo
  then show ?thesis by (rule rne_unique)
qed

lemma gap_samples_eval:
  assumes "1 \<le> ov" "ov \<le> c" "0 \<le> k"
    and x: "x = k * gap_unit ov c * of_u_int rate" "x \<le> 8192"
    and h: "0 \<le> h" "h + 1 \<le> x"
    and n: "\<bar>x - h - of_int n\<bar> \<le> 2 / 5"
  shows "rne (to_float (gap_samplen k ov c rate - h)) = n"
proof -
  define y where "y = gap_samplen k ov c rate"
  from near_gap_samplen [OF assms(1,2,3), of rate] have "near 63 y x"
    by (simp only: x(1) y_def)
  note b = near_numeric [OF this]
  have z: "0 \<le> y - h" using b x(2) h by argo
  note t = to_float_bounds [OF z]
  from b t x(2) h n have "\<bar>to_float (y - h) - of_int n\<bar> < 1 / 2"
    by argo
  then show ?thesis unfolding y_def by (rule rne_unique)
qed

lemma farnsworth_margin:
  fixes ov c R :: real
  assumes "1 \<le> ov" "4 * ov \<le> 3 * c" "0 \<le> R"
  shows "428 * (6 / (5 * c) * R) \<le> 228 * (gap_unit ov c * R)"
proof -
  from assms have c: "0 < c" "0 < ov" "\<not> c \<le> ov" by simp_all
  have g: "gap_unit ov c = (60 * c - (372 / 10) * ov) / (c * ov) / 19"
    using c(3) by (rule gap_unit_stretch)
  have "428 * 6 * (19 * ov) \<le> 228 * 5 * (60 * c - (372 / 10) * ov)"
    using assms(2) by simp
  then have "428 * 6 / (5 * c) \<le> 228 * ((60 * c - (372 / 10) * ov) / (c * ov) / 19)"
    using c(1,2) by (simp add: field_simps)
  then have "428 * 6 / (5 * c) * R \<le> 228 * ((60 * c - (372 / 10) * ov) / (c * ov) / 19) * R"
    using assms(3) by (rule mult_right_mono)
  then show ?thesis by (simp only: g)
qed

lemma word_less_small:
  assumes "0 \<le> a" "a < b" "b < 2 ^ 32"
  shows "(word_of_int a :: u_int) < word_of_int b"
proof -
  from assms have "uint (word_of_int a :: u_int) = a" "uint (word_of_int b :: u_int) = b"
    by (simp_all add: uint_word_small)
  with assms(2) show ?thesis by (simp only: word_less_def)
qed

lemma word_div_2:
  assumes "0 \<le> n" "n < 2 ^ 31"
  shows "(word_of_int (2 * n) :: u_int) div 2 = word_of_int n"
proof -
  define m where "m = 2 * n"
  from assms have "0 \<le> m" "m < 2 ^ 32" by (simp_all add: m_def)
  then have u: "uint (word_of_int m :: u_int) = m" by (rule uint_word_small)
  have "uint ((word_of_int m :: u_int) div 2) = uint (word_of_int m :: u_int) div uint (2 :: u_int)"
    by (rule uint_div)
  also have "\<dots> = m div 2" by (simp only: u) simp
  also have "\<dots> = n" by (simp add: m_def)
  finally have "uint ((word_of_int m :: u_int) div 2) = n" .
  then have "(word_of_int m :: u_int) div 2 = word_of_int n"
    by (metis word_of_int_uint)
  then show ?thesis by (simp only: m_def)
qed

lemma frame_div_each:
  assumes "pcm_format ps" "0 \<le> n" "n < 2 ^ 30"
  shows "(word_of_int (frame_bytes ps * n) :: u_int) div sp_channels ps div (sp_precision ps div 8)
         = word_of_int n"
proof (cases "sp_channels ps = 1")
  case True
  with assms(1) have "sp_precision ps = 8" by (auto simp: pcm_format_def)
  with True show ?thesis by (simp add: frame_bytes_def)
next
  case False
  with assms(1) have p: "sp_channels ps = 2" "sp_precision ps = 16" by (auto simp: pcm_format_def)
  have e: "(16 :: u_int) div 8 = 2" by simp
  from assms have n2: "0 \<le> 2 * n" "2 * n < 2 ^ 31" "n < 2 ^ 31" by simp_all
  have "(word_of_int (2 * (2 * n)) :: u_int) div 2 div 2 = word_of_int n"
    by (simp only: word_div_2 [OF n2(1,2)] word_div_2 [OF assms(2) n2(3)])
  moreover have "frame_bytes ps * n = 2 * (2 * n)" using False by (simp add: frame_bytes_def)
  ultimately show ?thesis by (simp only: p e)
qed

section \<open>Timing: words per minute\<close>

lemma float_sum4:
  assumes "0 \<le> a" "0 \<le> b" "0 \<le> c" "0 \<le> d" "a + b + c + d < (2 :: int) ^ 24"
  shows "to_float (to_float (to_float (to_float (0 + to_float (of_int a)) + to_float (of_int b))
            + to_float (of_int c)) + to_float (of_int d)) = of_int (a + b + c + d)"
proof -
  from assms have s: "\<bar>a\<bar> < 2 ^ 24" "\<bar>b\<bar> < 2 ^ 24" "\<bar>c\<bar> < 2 ^ 24" "\<bar>d\<bar> < 2 ^ 24"
    "\<bar>a + b\<bar> < 2 ^ 24" "\<bar>a + b + c\<bar> < 2 ^ 24" "\<bar>a + b + c + d\<bar> < 2 ^ 24"
    by simp_all
  have 1: "to_float (0 + to_float (of_int a)) = of_int a"
    by (simp only: to_float_int [OF s(1)] add_0)
  have 2: "to_float (of_int a + to_float (of_int b)) = of_int (a + b)"
    using to_float_int [OF s(5)] by (simp only: to_float_int [OF s(2)] of_int_add)
  have 3: "to_float (of_int (a + b) + to_float (of_int c)) = of_int (a + b + c)"
    using to_float_int [OF s(6)] by (simp only: to_float_int [OF s(3)] of_int_add)
  have 4: "to_float (of_int (a + b + c) + to_float (of_int d)) = of_int (a + b + c + d)"
    using to_float_int [OF s(7)] by (simp only: to_float_int [OF s(4)] of_int_add)
  show ?thesis by (simp only: 1 2 3 4)
qed

lemma perword_eq:
  assumes fmt: "pcm_format ps"
    and b: "0 \<le> D" "0 \<le> H" "0 \<le> G" "0 \<le> W" "10 * D + 4 * H + 5 * G + W < 2 ^ 24"
  shows "perword ps \<lparr>dit_len = word_of_int (frame_bytes ps * D),
                      dah_len = word_of_int (frame_bytes ps * H),
                      inChar_len = word_of_int (frame_bytes ps * G),
                      inWord_len = word_of_int (frame_bytes ps * W)\<rparr>
         = of_int (10 * D + 4 * H + 5 * G + W)"
proof -
  have w: "word_of_int k * (word_of_int (frame_bytes ps * n) :: u_int) div sp_channels ps
             div (sp_precision ps div 8) = word_of_int (k * n)"
    if "0 \<le> k * n" "k * n < 2 ^ 24" for k n
  proof -
    have "word_of_int k * (word_of_int (frame_bytes ps * n) :: u_int)
        = word_of_int (frame_bytes ps * (k * n))"
      by (simp add: ac_simps)
    moreover from that have "k * n < 2 ^ 30" by simp
    ultimately show ?thesis using frame_div_each [OF fmt that(1)] by (simp only:)
  qed
  have u: "of_u_int (word_of_int n :: u_int) = of_int n" if "0 \<le> n" "n < 2 ^ 24" for n
    using that of_u_int_word [of n] by simp
  from b have r: "0 \<le> 10 * D" "10 * D < 2 ^ 24" "0 \<le> 4 * H" "4 * H < 2 ^ 24"
    "0 \<le> 5 * G" "5 * G < 2 ^ 24" "0 \<le> 1 * W" "1 * W < 2 ^ 24"
    by simp_all
  have e: "(word_of_int 10 :: u_int) = 10" "(word_of_int 4 :: u_int) = 4"
    "(word_of_int 5 :: u_int) = 5" "(word_of_int 1 :: u_int) = 1"
    by simp_all
  note ws = w [OF r(1,2), unfolded e] w [OF r(3,4), unfolded e] w [OF r(5,6), unfolded e]
    w [OF r(7,8), unfolded e]
  have "perword ps \<lparr>dit_len = word_of_int (frame_bytes ps * D),
                      dah_len = word_of_int (frame_bytes ps * H),
                      inChar_len = word_of_int (frame_bytes ps * G),
                      inWord_len = word_of_int (frame_bytes ps * W)\<rparr>
      = to_float (to_float (to_float (to_float (0 + to_float (of_int (10 * D)))
            + to_float (of_int (4 * H))) + to_float (of_int (5 * G))) + to_float (of_int (1 * W)))"
    by (simp only: perword_def Let_def lengths.simps ws u [OF r(1,2)] u [OF r(3,4)]
        u [OF r(5,6)] u [OF r(7,8)])
  also have "\<dots> = of_int (10 * D + 4 * H + 5 * G + 1 * W)"
    using b by (intro float_sum4) simp_all
  finally show ?thesis by simp
qed

lemma build_snd_nsamps_eq:
  "build_snd_nsamps c rate units = word_of_int (rne (snd_arg c rate units))"
  by (simp add: build_snd_nsamps_def snd_arg_def rintf_def)

lemma build_inChar_pa_alt:
  "build_inChar_pa ov c ps =
     (to_u_int (rintf (to_float (gap_samplen 3 ov c (sp_rate ps)
          - to_float (to_double (to_float (of_u_int (sp_ditlen ps)) / 2))))),
      ps\<lparr>sp_inCharlen :=
        to_u_int (rintf (to_float (gap_samplen 3 ov c (sp_rate ps)
          - to_float (to_double (to_float (of_u_int (sp_ditlen ps)) / 2)))))\<rparr>)"
  by (simp only: build_inChar_pa_def gap_samplen_def Let_def)

lemma build_inWord_pa_alt:
  "build_inWord_pa ov c ps =
     to_u_int (rintf (to_float (gap_samplen 7 ov c (sp_rate ps)
        - to_float (to_float (of_u_int (sp_inCharlen ps))
            + to_float (to_double (to_float (of_u_int (sp_ditlen ps)) / 2))))))"
  by (simp only: build_inWord_pa_def gap_samplen_def Let_def)

lemma build_sounds_pa_samples:
  fixes ov c :: real
  assumes bD: "0 \<le> dit_samples c (sp_rate ps)" "dit_samples c (sp_rate ps) < 2 ^ 20"
    and bG: "0 \<le> inChar_samples ov c (sp_rate ps)"
      "2 * inChar_samples ov c (sp_rate ps) + dit_samples c (sp_rate ps) < 2 ^ 22"
  shows "build_sounds_pa ov c ps =
     \<lparr>dit_len = word_of_int (dit_samples c (sp_rate ps)),
      dah_len = word_of_int (dah_samples c (sp_rate ps)),
      inChar_len = word_of_int (inChar_samples ov c (sp_rate ps)),
      inWord_len = word_of_int (inWord_samples ov c (sp_rate ps))\<rparr>"
proof -
  define D where "D = dit_samples c (sp_rate ps)"
  define H where "H = dah_samples c (sp_rate ps)"
  define G where "G = inChar_samples ov c (sp_rate ps)"
  define W where "W = inWord_samples ov c (sp_rate ps)"
  define ps1 where "ps1 = ps\<lparr>sp_ditlen := word_of_int D\<rparr>"
  define ps2 where "ps2 = ps1\<lparr>sp_dahlen := word_of_int H\<rparr>"
  define ps3 where "ps3 = ps2\<lparr>sp_inCharlen := word_of_int G\<rparr>"
  note b = bD [folded D_def] bG [folded G_def D_def]
  have rt: "sp_rate ps1 = sp_rate ps" "sp_rate ps2 = sp_rate ps" "sp_rate ps3 = sp_rate ps"
    by (simp_all add: ps1_def ps2_def ps3_def)
  have dl: "sp_ditlen ps2 = word_of_int D" "sp_ditlen ps3 = word_of_int D"
    by (simp_all add: ps1_def ps2_def ps3_def)
  have gl: "sp_inCharlen ps3 = word_of_int G"
    by (simp add: ps3_def)
  from b have D: "0 \<le> D" "D < 2 ^ 32" "D < 2 ^ 24" by simp_all
  from b have G: "0 \<le> G" "G < 2 ^ 32" "G < 2 ^ 24" by simp_all
  have half: "to_float (to_double (to_float (of_u_int (word_of_int D :: u_int)) / 2)) = of_int D / 2"
    by (simp only: of_u_int_word [OF D(1,2)] half_exact [OF D(1,3)])
  have ics: "to_float (of_u_int (word_of_int G :: u_int)) = of_int G"
    by (simp only: of_u_int_word [OF G(1,2)] half_exact [OF G(1,3)])
  have sum: "to_float (of_int G + of_int D / 2) = of_int G + of_int D / 2"
  proof -
    have "of_int G + of_int D / 2 = (of_int (2 * G + D) / 2 :: real)" by simp
    moreover have "\<bar>2 * G + D\<bar> < 2 ^ 24" using b by simp
    ultimately show ?thesis using to_float_half [of "2 * G + D"] by (simp only:)
  qed
  have dit: "build_dit_pa c ps = (word_of_int D, ps1)"
    by (simp add: build_dit_pa_def Let_def build_snd_nsamps_eq D_def dit_samples_def ps1_def)
  have dah: "build_dah_pa c ps1 = (word_of_int H, ps2)"
    by (simp add: build_dah_pa_def Let_def build_snd_nsamps_eq H_def dah_samples_def ps2_def rt)
  have ic: "build_inChar_pa ov c ps2 = (word_of_int G, ps3)"
    unfolding build_inChar_pa_alt dl half rintf_def to_u_int_of_int rt ps3_def
    by (simp only: G_def inChar_samples_def D_def)
  have iw: "build_inWord_pa ov c ps3 = word_of_int W"
    unfolding build_inWord_pa_alt dl gl half ics sum rintf_def to_u_int_of_int rt
    by (simp only: W_def inWord_samples_def G_def D_def)
  show ?thesis
    by (simp add: build_sounds_pa_def dit dah ic iw D_def [symmetric] H_def [symmetric]
        G_def [symmetric] W_def [symmetric])
qed

lemma perword_pa_eq:
  assumes b: "0 \<le> D" "0 \<le> H" "0 \<le> G" "0 \<le> W" "10 * D + 4 * H + 5 * G + W < 2 ^ 24"
  shows "perword_pa \<lparr>dit_len = word_of_int D, dah_len = word_of_int H,
                      inChar_len = word_of_int G, inWord_len = word_of_int W\<rparr>
         = of_int (10 * D + 4 * H + 5 * G + W)"
proof -
  have u: "of_u_int (word_of_int n :: u_int) = of_int n" if "0 \<le> n" "n < 2 ^ 24" for n
    using that of_u_int_word [of n] by simp
  from b have r: "0 \<le> 10 * D" "10 * D < 2 ^ 24" "0 \<le> 4 * H" "4 * H < 2 ^ 24"
    "0 \<le> 5 * G" "5 * G < 2 ^ 24" "0 \<le> 1 * W" "1 * W < 2 ^ 24"
    by simp_all
  have e: "10 * (word_of_int D :: u_int) = word_of_int (10 * D)"
    "4 * (word_of_int H :: u_int) = word_of_int (4 * H)"
    "5 * (word_of_int G :: u_int) = word_of_int (5 * G)"
    "1 * (word_of_int W :: u_int) = word_of_int (1 * W)"
    by simp_all
  have "perword_pa \<lparr>dit_len = word_of_int D, dah_len = word_of_int H,
                      inChar_len = word_of_int G, inWord_len = word_of_int W\<rparr>
      = to_float (to_float (to_float (to_float (0 + to_float (of_int (10 * D)))
            + to_float (of_int (4 * H))) + to_float (of_int (5 * G))) + to_float (of_int (1 * W)))"
    by (simp only: perword_pa_def Let_def lengths.simps e u [OF r(1,2)] u [OF r(3,4)]
        u [OF r(5,6)] u [OF r(7,8)])
  also have "\<dots> = of_int (10 * D + 4 * H + 5 * G + 1 * W)"
    using b by (intro float_sum4) simp_all
  finally show ?thesis by simp
qed

lemma paris_units:
  fixes ov c R :: real
  assumes "1 \<le> ov" "ov \<le> c"
  shows "31 * (6 / (5 * c) * R) + 19 * (gap_unit ov c * R) = 60 * R / ov"
proof (cases "c \<le> ov")
  case True
  with assms have "c = ov" by simp
  with assms show ?thesis by (simp add: gap_unit_def)
next
  case False
  with assms have "0 < c" "0 < ov" by simp_all
  then show ?thesis
    by (simp only: gap_unit_stretch [OF False]) (simp add: field_simps)
qed

lemma rate_error_exact:
  fixes ov R P :: real
  assumes "0 < ov" "0 < P" "100 * \<bar>60 * R / ov - P\<bar> \<le> P"
  shows "\<bar>R * 60 / P - ov\<bar> \<le> ov / 100"
proof -
  have "R * 60 / P - ov = (60 * R / ov - P) * (ov / P)"
    using assms(1,2) by (simp add: field_simps)
  then have "\<bar>R * 60 / P - ov\<bar> = \<bar>60 * R / ov - P\<bar> * (ov / P)"
    using assms(1,2) by (simp add: abs_mult)
  also have "\<dots> \<le> (P / 100) * (ov / P)"
    using assms by (intro mult_right_mono) simp_all
  also have "\<dots> = ov / 100" using assms(2) by simp
  finally show ?thesis .
qed

end
